theory Spec2Isabelle
  imports Main "HOL-Library.Word" "HOL-Library.AList"
begin

section \<open>Bytes and strings\<close>

text \<open>
  A chunk is a \<^verbatim>\<open>Uint8Array\<close>: a list of bytes. A JavaScript string is a sequence of
  UTF-16 code units. \<open>ascii\<close> and \<open>octets\<close> only serve to write string literals.
\<close>

type_synonym byte = "8 word"
type_synonym jstring = "16 word list"

definition ascii :: "string \<Rightarrow> jstring" where
  "ascii s = map (\<lambda>c. of_nat (of_char c)) s"

definition octets :: "string \<Rightarrow> byte list" where
  "octets s = map (\<lambda>c. of_nat (of_char c)) s"

definition COLON :: byte where "COLON = 0x3A"
definition CR :: byte where "CR = 0x0D"
definition LF :: byte where "LF = 0x0A"
definition SPACE :: byte where "SPACE = 0x20"

definition notNameChar :: "byte \<Rightarrow> bool" where
  "notNameChar ch = (ch = COLON \<or> ch = CR \<or> ch = LF)"

definition lineEndChar :: "byte \<Rightarrow> bool" where
  "lineEndChar ch = (ch = CR \<or> ch = LF)"

text \<open>\<^verbatim>\<open>TypedArray.prototype.findIndex\<close>: the index of the first element the predicate
  accepts; \<open>None\<close> stands for the result -1.\<close>

primrec findIndex :: "('a \<Rightarrow> bool) \<Rightarrow> 'a list \<Rightarrow> nat option" where
  "findIndex P [] = None"
| "findIndex P (x # xs) = (if P x then Some 0 else map_option Suc (findIndex P xs))"

text \<open>\<^verbatim>\<open>chunk[pos]\<close>: reading past the end of a typed array gives \<^verbatim>\<open>undefined\<close>,
  here \<open>None\<close>.\<close>

definition at :: "'a list \<Rightarrow> nat \<Rightarrow> 'a option" where
  "at xs i = (if i < length xs then Some (xs ! i) else None)"

section \<open>The platform's TextDecoder\<close>

text \<open>
  \<^verbatim>\<open>new TextDecoder()\<close> is the platform's UTF-8 decoder with replacement error mode
  and \<^verbatim>\<open>ignoreBOM = false\<close>. It is not code of the repository; the definitions below
  follow the algorithm of the WHATWG Encoding Standard: the UTF-8 decoder's handler,
  run byte by byte, and \<^verbatim>\<open>TextDecoder.decode\<close> with its \<^emph>\<open>do not flush\<close> and
  \<^emph>\<open>BOM seen\<close> flags. Scalar values are natural numbers; an error is the scalar
  value U+FFFD.
\<close>

datatype utf8_decoder =
  Utf8 (code_point: nat) (bytes_seen: nat) (bytes_needed: nat)
       (lower_boundary: byte) (upper_boundary: byte)

definition utf8_initial :: utf8_decoder where
  "utf8_initial = Utf8 0 0 0 0x80 0xBF"

text \<open>The handler's step for a byte read while no continuation byte is needed.\<close>

definition utf8_lead :: "byte \<Rightarrow> utf8_decoder \<times> nat list" where
  "utf8_lead b =
    (if b \<le> 0x7F then (utf8_initial, [unat b])
     else if 0xC2 \<le> b \<and> b \<le> 0xDF then (Utf8 (unat b mod 32) 0 1 0x80 0xBF, [])
     else if 0xE0 \<le> b \<and> b \<le> 0xEF then
       (Utf8 (unat b mod 16) 0 2 (if b = 0xE0 then 0xA0 else 0x80)
          (if b = 0xED then 0x9F else 0xBF), [])
     else if 0xF0 \<le> b \<and> b \<le> 0xF4 then
       (Utf8 (unat b mod 8) 0 3 (if b = 0xF0 then 0x90 else 0x80)
          (if b = 0xF4 then 0x8F else 0xBF), [])
     else (utf8_initial, [0xFFFD]))"

text \<open>The handler for one byte. A byte outside the expected range is an error and is
  put back: it is then read again with the decoder reset.\<close>

definition utf8_handler :: "utf8_decoder \<Rightarrow> byte \<Rightarrow> utf8_decoder \<times> nat list" where
  "utf8_handler d b =
    (if bytes_needed d = 0 then utf8_lead b
     else if b < lower_boundary d then (fst (utf8_lead b), 0xFFFD # snd (utf8_lead b))
     else if upper_boundary d < b then (fst (utf8_lead b), 0xFFFD # snd (utf8_lead b))
     else
       (let cp = code_point d * 64 + unat b mod 64; seen = bytes_seen d + 1
        in if seen = bytes_needed d then (utf8_initial, [cp])
           else (Utf8 cp seen (bytes_needed d) 0x80 0xBF, [])))"

fun utf8_run :: "utf8_decoder \<Rightarrow> byte list \<Rightarrow> utf8_decoder \<times> nat list" where
  "utf8_run d [] = (d, [])"
| "utf8_run d (b # bs) =
    (case utf8_handler d b of (d1, out1) \<Rightarrow>
       (case utf8_run d1 bs of (d2, out2) \<Rightarrow> (d2, out1 @ out2)))"

text \<open>The handler at end-of-queue: a pending sequence is an error.\<close>

definition utf8_end :: "utf8_decoder \<Rightarrow> nat list" where
  "utf8_end d = (if bytes_needed d = 0 then [] else [0xFFFD])"

text \<open>A scalar value as UTF-16 code units.\<close>

definition utf16 :: "nat \<Rightarrow> jstring" where
  "utf16 cp =
    (if cp < 0x10000 then [of_nat cp]
     else [of_nat (0xD800 + (cp - 0x10000) div 0x400), of_nat (0xDC00 + (cp - 0x10000) mod 0x400)])"

record TextDecoder =
  utf8 :: utf8_decoder
  BOM_seen :: bool
  do_not_flush :: bool

definition new_TextDecoder :: TextDecoder where
  "new_TextDecoder = \<lparr>utf8 = utf8_initial, BOM_seen = False, do_not_flush = False\<rparr>"

text \<open>\<^emph>\<open>Serialize I/O queue\<close>: the first scalar value of a stream is dropped when it is
  U+FEFF.\<close>

fun serialize :: "bool \<Rightarrow> nat list \<Rightarrow> bool \<times> jstring" where
  "serialize seen [] = (seen, [])"
| "serialize seen (item # out) =
    (True, (if seen then utf16 item else if item = 0xFEFF then [] else utf16 item)
           @ concat (map utf16 out))"

text \<open>\<^verbatim>\<open>decoder.decode(bytes, {stream: true})\<close>\<close>

definition decode_stream :: "TextDecoder \<Rightarrow> byte list \<Rightarrow> TextDecoder \<times> jstring" where
  "decode_stream td input =
    (let td0 = (if do_not_flush td then td else new_TextDecoder);
         run = utf8_run (utf8 td0) input;
         ser = serialize (BOM_seen td0) (snd run)
     in (\<lparr>utf8 = fst run, BOM_seen = fst ser, do_not_flush = True\<rparr>, snd ser))"

text \<open>\<^verbatim>\<open>decoder.decode()\<close>: the flush.\<close>

definition decode_flush :: "TextDecoder \<Rightarrow> TextDecoder \<times> jstring" where
  "decode_flush td =
    (let td0 = (if do_not_flush td then td else new_TextDecoder);
         ser = serialize (BOM_seen td0) (utf8_end (utf8 td0))
     in (\<lparr>utf8 = utf8_initial, BOM_seen = fst ser, do_not_flush = False\<rparr>, snd ser))"

section \<open>Message objects\<close>

text \<open>
  A \<^verbatim>\<open>Message\<close> is a plain JavaScript object created by \<^verbatim>\<open>{}\<close>: its own
  properties in creation order. \<^verbatim>\<open>m[k] = v\<close> overwrites an own property in place or
  creates it last; the one inherited accessor of \<^verbatim>\<open>Object.prototype\<close>,
  \<^verbatim>\<open>__proto__\<close>, takes the assignment instead, and its setter ignores a string.
  \<^verbatim>\<open>Object.keys\<close> lists array-index keys first, in ascending numeric order, then the
  other keys in creation order (the \<^emph>\<open>OrdinaryOwnPropertyKeys\<close> of ECMAScript).
  Objects live in a store; a reference is an index into it.
\<close>

type_synonym Message = "(jstring \<times> jstring) list"
type_synonym ref = nat

definition proto_name :: jstring where
  "proto_name = ascii ''__proto__''"

definition obj_set :: "Message \<Rightarrow> jstring \<Rightarrow> jstring \<Rightarrow> Message" where
  "obj_set m k v = (if k = proto_name then m else AList.update k v m)"

text \<open>\<^verbatim>\<open>m[k] || ''\<close>, for a key other than \<^verbatim>\<open>__proto__\<close>.\<close>

definition obj_get_or_empty :: "Message \<Rightarrow> jstring \<Rightarrow> jstring" where
  "obj_get_or_empty m k = (case map_of m k of None \<Rightarrow> [] | Some v \<Rightarrow> v)"

definition digit :: "16 word \<Rightarrow> bool" where
  "digit c = (0x30 \<le> c \<and> c \<le> 0x39)"

definition decimal :: "jstring \<Rightarrow> nat" where
  "decimal k = foldl (\<lambda>n c. 10 * n + (unat c - 0x30)) 0 k"

text \<open>An array index: the canonical decimal numeral of an integer below \<open>2^32 - 1\<close>.\<close>

definition array_index :: "jstring \<Rightarrow> nat option" where
  "array_index k =
    (if k = [] then None
     else if list_all digit k then
       (if hd k = 0x30 \<and> 1 < length k then None
        else if decimal k < 4294967295 then Some (decimal k) else None)
     else None)"

definition Object_keys :: "Message \<Rightarrow> jstring list" where
  "Object_keys m =
    map snd (sort_key fst
      (List.map_filter (\<lambda>k. map_option (\<lambda>n. (n, k)) (array_index k)) (map fst m)))
    @ filter (\<lambda>k. array_index k = None) (map fst m)"

section \<open>The parser's states\<close>

text \<open>
  A \<^verbatim>\<open>ParserState\<close> is one of the generator functions \<^verbatim>\<open>fieldStart\<close>,
  \<^verbatim>\<open>fieldName\<close>, \<^verbatim>\<open>fieldValue(name)\<close>, \<^verbatim>\<open>skipComment\<close>, or the anonymous generator
  that \<^verbatim>\<open>skipLFAfterCR\<close> returns for a character other than LF.
\<close>

datatype ParserState =
  fieldStart
| fieldName
| fieldValue jstring
| skipComment
| skipLF ParserState

definition skipLFAfterCR :: "byte \<Rightarrow> ParserState \<Rightarrow> ParserState" where
  "skipLFAfterCR char nextState = (if char = LF then nextState else skipLF nextState)"

record ParserCtx =
  message :: ref
  decoder :: TextDecoder

text \<open>
  An iterator is a generator object at one of its suspension points:
  created and not yet run; at its first \<^verbatim>\<open>yield {}\<close>; \<^verbatim>\<open>fieldStart\<close> at
  \<^verbatim>\<open>yield {message: ctx.message}\<close> (with its locals \<^verbatim>\<open>char\<close> and \<^verbatim>\<open>pos\<close>);
  \<^verbatim>\<open>collectUntilChar\<close> at \<^verbatim>\<open>yield {pos: chunk.byteLength}\<close> (with \<^verbatim>\<open>buffer\<close> and
  \<^verbatim>\<open>remainingChunk\<close>, whose bytes are decoded only after the resumption), inside
  \<^verbatim>\<open>fieldName\<close> or inside \<^verbatim>\<open>fieldValue(name)\<close>; \<^verbatim>\<open>skipComment\<close> at its
  \<^verbatim>\<open>yield {pos: chunk.byteLength}\<close>.
\<close>

datatype iterator =
  Created ParserState
| FirstYield ParserState
| MessageYield byte nat
| NameMore jstring "byte list"
| ValueMore jstring jstring "byte list"
| CommentMore

text \<open>What \<^verbatim>\<open>iterator.next\<close> gives back: a yielded \<^verbatim>\<open>ParserOutput\<close> (the
  generator lives on as the given iterator), or the returned \<^verbatim>\<open>ParserTransition\<close>.\<close>

datatype step =
  Yielded iterator "ref option" "nat option"
| Returned ParserState nat

text \<open>The end of the loop body of \<^verbatim>\<open>collectUntilChar\<close>: the leading-space test and
  the streaming decode of \<^verbatim>\<open>bytesToAdd\<close>.\<close>

definition add_bytes :: "bool \<Rightarrow> TextDecoder \<Rightarrow> jstring \<Rightarrow> byte list \<Rightarrow> TextDecoder \<times> jstring" where
  "add_bytes skipLeadingSpace dec buffer bytesToAdd =
    (let bytes = (if skipLeadingSpace \<and> buffer = [] \<and> 0 < length bytesToAdd
                     \<and> at bytesToAdd 0 = Some SPACE
                  then drop 1 bytesToAdd else bytesToAdd);
         d = decode_stream dec bytes
     in (fst d, buffer @ snd d))"

datatype collected =
  More jstring "byte list"
| Ended byte jstring nat

text \<open>
  \<^verbatim>\<open>collectUntilChar\<close> from the head of its loop, with the chunk and position it
  holds. Both predicates of the program reject the byte 0, so the loop is left as soon
  as a byte is found. When none is found the generator yields before it decodes
  anything of the chunk.
\<close>

definition collectUntilChar ::
  "(byte \<Rightarrow> bool) \<Rightarrow> bool \<Rightarrow> TextDecoder \<Rightarrow> jstring \<Rightarrow> byte list \<Rightarrow> nat
    \<Rightarrow> TextDecoder \<times> collected" where
  "collectUntilChar predicate skipLeadingSpace dec buffer chunk pos =
    (let remainingChunk = drop pos chunk in
     case findIndex predicate remainingChunk of
       None \<Rightarrow> (dec, More buffer remainingChunk)
     | Some endingIndex \<Rightarrow>
         (let added = add_bytes skipLeadingSpace dec buffer (take endingIndex remainingChunk);
              flushed = decode_flush (fst added)
          in (new_TextDecoder,
              Ended (remainingChunk ! endingIndex) (snd added @ snd flushed)
                (pos + endingIndex + 1))))"

text \<open>\<^verbatim>\<open>fieldName\<close> after \<^verbatim>\<open>collectUntilChar\<close> has returned.\<close>

definition fieldName_end ::
  "Message list \<Rightarrow> ParserCtx \<Rightarrow> byte \<Rightarrow> jstring \<Rightarrow> nat \<Rightarrow> (Message list \<times> ParserCtx) \<times> step" where
  "fieldName_end h c endingChar buffer pos =
    (if endingChar = LF \<or> endingChar = CR
     then ((h[message c := obj_set (h ! message c) buffer []], c),
           Returned (skipLFAfterCR endingChar fieldStart) pos)
     else ((h, c), Returned (fieldValue buffer) pos))"

text \<open>The generator of \<^verbatim>\<open>fieldValue(name)\<close> after \<^verbatim>\<open>collectUntilChar\<close> has returned.\<close>

definition fieldValue_end ::
  "jstring \<Rightarrow> Message list \<Rightarrow> ParserCtx \<Rightarrow> byte \<Rightarrow> jstring \<Rightarrow> nat
    \<Rightarrow> (Message list \<times> ParserCtx) \<times> step" where
  "fieldValue_end name h c endingChar buffer pos =
    (let v = (if name = ascii ''data''
              then obj_get_or_empty (h ! message c) name @ buffer @ ascii [CHR 0x0A]
              else buffer)
     in ((h[message c := obj_set (h ! message c) name v], c),
         Returned (skipLFAfterCR endingChar fieldStart) pos))"

definition collect_result ::
  "(jstring \<Rightarrow> byte list \<Rightarrow> iterator) \<Rightarrow>
   (Message list \<Rightarrow> ParserCtx \<Rightarrow> byte \<Rightarrow> jstring \<Rightarrow> nat \<Rightarrow> (Message list \<times> ParserCtx) \<times> step) \<Rightarrow>
   Message list \<Rightarrow> ParserCtx \<Rightarrow> byte list \<Rightarrow> TextDecoder \<times> collected
   \<Rightarrow> (Message list \<times> ParserCtx) \<times> step" where
  "collect_result suspend finish h c chunk r =
    (case snd r of
       More buffer remainingChunk \<Rightarrow>
         ((h, c\<lparr>decoder := fst r\<rparr>),
          Yielded (suspend buffer remainingChunk) None (Some (length chunk)))
     | Ended endingChar buffer pos \<Rightarrow> finish h (c\<lparr>decoder := fst r\<rparr>) endingChar buffer pos)"

definition skipComment_scan :: "byte list \<Rightarrow> nat \<Rightarrow> step" where
  "skipComment_scan chunk pos =
    (let remainingChunk = drop pos chunk in
     case findIndex lineEndChar remainingChunk of
       Some lineEndIndex \<Rightarrow>
         Returned (skipLFAfterCR (remainingChunk ! lineEndIndex) fieldStart) (pos + lineEndIndex)
     | None \<Rightarrow> Yielded CommentMore None (Some (length chunk)))"

text \<open>
  \<^verbatim>\<open>stateIterator.next({chunk, pos})\<close>. The first parameter is the predicate that
  \<^verbatim>\<open>fieldValue\<close> hands to \<^verbatim>\<open>collectUntilChar\<close>: \<open>lineEndChar\<close> in
  \<^verbatim>\<open>lib/SSEResponseParser.ts\<close>.
\<close>

fun iterator_next ::
  "(byte \<Rightarrow> bool) \<Rightarrow> iterator \<Rightarrow> Message list \<Rightarrow> ParserCtx \<Rightarrow> byte list \<Rightarrow> nat
    \<Rightarrow> (Message list \<times> ParserCtx) \<times> step" where
  "iterator_next vp (Created st) h c chunk pos = ((h, c), Yielded (FirstYield st) None None)"
| "iterator_next vp (FirstYield fieldStart) h c chunk pos =
    (if at chunk pos = Some COLON then ((h, c), Returned skipComment (pos + 1))
     else if at chunk pos = Some LF then
       ((h, c), Yielded (MessageYield LF pos) (Some (message c)) None)
     else if at chunk pos = Some CR then
       ((h, c), Yielded (MessageYield CR pos) (Some (message c)) None)
     else ((h, c), Returned fieldName pos))"
| "iterator_next vp (MessageYield char pos0) h c chunk pos =
    ((h @ [[]], c\<lparr>message := length h\<rparr>), Returned (skipLFAfterCR char fieldStart) (pos0 + 1))"
| "iterator_next vp (FirstYield fieldName) h c chunk pos =
    collect_result NameMore fieldName_end h c chunk
      (collectUntilChar notNameChar False (decoder c) [] chunk pos)"
| "iterator_next vp (NameMore buffer remainingChunk) h c chunk pos =
    (let added = add_bytes False (decoder c) buffer remainingChunk in
     collect_result NameMore fieldName_end h c chunk
       (collectUntilChar notNameChar False (fst added) (snd added) chunk pos))"
| "iterator_next vp (FirstYield (fieldValue name)) h c chunk pos =
    collect_result (ValueMore name) (fieldValue_end name) h c chunk
      (collectUntilChar vp True (decoder c) [] chunk pos)"
| "iterator_next vp (ValueMore name buffer remainingChunk) h c chunk pos =
    (let added = add_bytes True (decoder c) buffer remainingChunk in
     collect_result (ValueMore name) (fieldValue_end name) h c chunk
       (collectUntilChar vp True (fst added) (snd added) chunk pos))"
| "iterator_next vp (FirstYield skipComment) h c chunk pos = ((h, c), skipComment_scan chunk pos)"
| "iterator_next vp CommentMore h c chunk pos = ((h, c), skipComment_scan chunk pos)"
| "iterator_next vp (FirstYield (skipLF nextState)) h c chunk pos =
    (if at chunk pos = Some LF then ((h, c), Returned nextState (pos + 1))
     else ((h, c), Returned nextState pos))"

section \<open>The stream driver\<close>

datatype FinishReason = SERVER_CLOSED | CLIENT_CLOSED | THROWN | HTTP_STATUS

datatype SSEParseResult = ParseResult (reason: FinishReason) (error: "nat option")

text \<open>
  The byte source behind \<^verbatim>\<open>ReaderLike\<close> is outside the repository. It is taken as the
  list of results its \<^verbatim>\<open>read()\<close> calls will give, each a \<^verbatim>\<open>{value, done}\<close> pair or a
  rejection; once the list is used up, or after \<^verbatim>\<open>cancel\<close>, \<^verbatim>\<open>read()\<close> gives the
  end marker \<^verbatim>\<open>{done: true}\<close>.
\<close>

datatype read_result =
  ReadResult "byte list option" bool
| ReadRejects nat

record ReaderLike =
  pending :: "read_result list"
  cancelled :: bool

definition reader_read :: "ReaderLike \<Rightarrow> read_result \<times> ReaderLike" where
  "reader_read r =
    (if cancelled r then (ReadResult None True, r)
     else case pending r of
       [] \<Rightarrow> (ReadResult None True, r)
     | x # xs \<Rightarrow> (x, r\<lparr>pending := xs\<rparr>))"

definition reader_cancel :: "ReaderLike \<Rightarrow> ReaderLike" where
  "reader_cancel r = r\<lparr>cancelled := True\<rparr>"

text \<open>
  A session: the fields of the \<^verbatim>\<open>SSEResponseParser\<close> object, the locals of its
  \<^verbatim>\<open>getMessages\<close> generator (\<^verbatim>\<open>ctx\<close>, \<^verbatim>\<open>stateIterator\<close>), the object store, and the
  consumer. \<open>yielded\<close> lists what the consumer has been handed: each message's
  reference with the contents the object had at that moment. \<open>closeAfter = Some n\<close> is a
  consumer that calls \<^verbatim>\<open>close()\<close> as soon as it holds its \<open>n\<close>-th message (at once for
  \<open>n = 0\<close>) and keeps pulling; \<open>None\<close> is one that never closes.
\<close>

record session =
  reader :: ReaderLike
  clientClosed :: bool
  finishedWith :: "SSEParseResult option"
  heap :: "Message list"
  ctx :: ParserCtx
  stateIterator :: iterator
  yielded :: "(ref \<times> Message) list"
  closeAfter :: "nat option"

definition close :: "session \<Rightarrow> session \<times> SSEParseResult" where
  "close s =
    (let s1 = (if finishedWith s = None
               then s\<lparr>clientClosed := True, reader := reader_cancel (reader s)\<rparr> else s)
     in (s1, case finishedWith s1 of None \<Rightarrow> ParseResult CLIENT_CLOSED None | Some r \<Rightarrow> r))"

text \<open>\<^verbatim>\<open>yield result.message\<close>: the consumer takes the message and may close.\<close>

definition yield_message :: "session \<Rightarrow> ref \<Rightarrow> session" where
  "yield_message s r =
    (let s1 = s\<lparr>yielded := yielded s @ [(r, heap s ! r)]\<rparr>
     in if closeAfter s1 = Some (length (yielded s1)) then fst (close s1) else s1)"

text \<open>The handling of one \<^verbatim>\<open>step\<close> in the inner loop; it gives the next
  \<^verbatim>\<open>currentPos\<close> as well.\<close>

definition take_step :: "session \<Rightarrow> nat \<Rightarrow> (Message list \<times> ParserCtx) \<times> step \<Rightarrow> session \<times> nat" where
  "take_step s currentPos r =
    (case snd r of
       Returned nextState pos \<Rightarrow>
         (s\<lparr>heap := fst (fst r), ctx := snd (fst r), stateIterator := Created nextState\<rparr>, pos)
     | Yielded it msg pos \<Rightarrow>
         (let s1 = s\<lparr>heap := fst (fst r), ctx := snd (fst r), stateIterator := it\<rparr>;
              s2 = (case msg of
                      None \<Rightarrow> s1
                    | Some m \<Rightarrow> if 0 < length (Object_keys (heap s1 ! m))
                               then yield_message s1 m else s1)
          in (s2, case pos of None \<Rightarrow> currentPos | Some p \<Rightarrow> p)))"

subsection \<open>The inner loop\<close>

text \<open>
  The loop \<^verbatim>\<open>while (currentPos < chunk.byteLength)\<close> makes progress at every step: a step
  moves the position forward, or leaves it and moves the iterator down the ranking
  below. \<^verbatim>\<open>fieldStart\<close> resumed after its message goes on from the position it kept,
  so that position is the one that counts for it.
\<close>

fun state_rank :: "ParserState \<Rightarrow> nat" where
  "state_rank fieldStart = 1"
| "state_rank fieldName = 0"
| "state_rank (fieldValue n) = 0"
| "state_rank skipComment = 3"
| "state_rank (skipLF st) = Suc (state_rank st)"

fun iterator_rank :: "nat \<Rightarrow> iterator \<Rightarrow> nat" where
  "iterator_rank len (Created st) = 2 * state_rank st + 2"
| "iterator_rank len (FirstYield st) = 2 * state_rank st + 1"
| "iterator_rank len (MessageYield ch p0) = (if p0 < len then 0 else 7)"
| "iterator_rank len (NameMore b r) = 0"
| "iterator_rank len (ValueMore n b r) = 0"
| "iterator_rank len CommentMore = 7"

fun bytes_left :: "nat \<Rightarrow> iterator \<Rightarrow> nat \<Rightarrow> nat" where
  "bytes_left len (MessageYield ch p0) pos = len - p0"
| "bytes_left len it pos = len - pos"

lemma stateIterator_close [simp]: "stateIterator (fst (close s)) = stateIterator s"
  by (simp add: close_def Let_def)

lemma stateIterator_yield_message [simp]: "stateIterator (yield_message s r) = stateIterator s"
  by (simp add: yield_message_def Let_def)

lemma findIndex_less: "findIndex P xs = Some i \<Longrightarrow> i < length xs"
  by (induction xs arbitrary: i) (auto split: if_splits)

lemma feed_decreases:
  assumes "pos < length chunk"
    and "take_step s pos (iterator_next vp (stateIterator s) (heap s) (ctx s) chunk pos) = (s', pos')"
  shows "bytes_left (length chunk) (stateIterator s') pos' < bytes_left (length chunk) (stateIterator s) pos
       \<or> (bytes_left (length chunk) (stateIterator s') pos' = bytes_left (length chunk) (stateIterator s) pos
          \<and> iterator_rank (length chunk) (stateIterator s') < iterator_rank (length chunk) (stateIterator s))"
proof (cases "stateIterator s")
  case (Created st)
  with assms show ?thesis by (auto simp: take_step_def)
next
  case (FirstYield st)
  with assms show ?thesis
    by (cases st)
       (auto simp: take_step_def collect_result_def collectUntilChar_def skipComment_scan_def
          fieldName_end_def fieldValue_end_def skipLFAfterCR_def Let_def
          split: if_splits option.splits dest: findIndex_less)
next
  case (MessageYield ch p0)
  with assms show ?thesis
    by (auto simp: take_step_def skipLFAfterCR_def split: if_splits)
next
  case (NameMore b r)
  with assms show ?thesis
    by (auto simp: take_step_def collect_result_def collectUntilChar_def
          fieldName_end_def skipLFAfterCR_def Let_def
          split: if_splits option.splits dest: findIndex_less)
next
  case (ValueMore n b r)
  with assms show ?thesis
    by (auto simp: take_step_def collect_result_def collectUntilChar_def
          fieldValue_end_def skipLFAfterCR_def Let_def
          split: if_splits option.splits dest: findIndex_less)
next
  case CommentMore
  with assms show ?thesis
    by (auto simp: take_step_def skipComment_scan_def skipLFAfterCR_def Let_def
          split: if_splits option.splits dest: findIndex_less)
qed

text \<open>The inner loop of \<^verbatim>\<open>getMessages\<close>: the chunk is offered to the iterator until
  it is used up.\<close>

function feed :: "(byte \<Rightarrow> bool) \<Rightarrow> session \<Rightarrow> byte list \<Rightarrow> nat \<Rightarrow> session" where
  "feed vp s chunk currentPos =
    (if currentPos < length chunk then
       (let r = take_step s currentPos
                  (iterator_next vp (stateIterator s) (heap s) (ctx s) chunk currentPos)
        in feed vp (fst r) chunk (snd r))
     else s)"
  by pat_completeness auto
termination
  apply (relation "inv_image (less_than <*lex*> less_than)
    (\<lambda>(vp, s, chunk, pos). (bytes_left (length chunk) (stateIterator s) pos,
                              iterator_rank (length chunk) (stateIterator s)))")
   apply (intro wf_inv_image wf_lex_prod wf_less_than)
  subgoal for vp s chunk currentPos r
    using feed_decreases[of currentPos chunk s vp "fst r" "snd r"] by auto
  done

declare feed.simps [simp del]

lemma feed_more:
  "currentPos < length chunk \<Longrightarrow> feed vp s chunk currentPos =
     feed vp (fst (take_step s currentPos
                (iterator_next vp (stateIterator s) (heap s) (ctx s) chunk currentPos))) chunk
       (snd (take_step s currentPos
                (iterator_next vp (stateIterator s) (heap s) (ctx s) chunk currentPos)))"
  by (subst feed.simps) (simp add: Let_def)

lemma feed_done: "\<not> currentPos < length chunk \<Longrightarrow> feed vp s chunk currentPos = s"
  by (subst feed.simps) simp

lemma pending_take_step: "pending (reader (fst (take_step s pos r))) = pending (reader s)"
  by (simp add: take_step_def yield_message_def close_def reader_cancel_def Let_def
      split: step.splits option.splits)

lemma pending_feed: "pending (reader (feed vp s chunk pos)) = pending (reader s)"
proof (induction vp s chunk pos rule: feed.induct)
  case (1 vp s chunk currentPos)
  show ?case
  proof (cases "currentPos < length chunk")
    case True
    then show ?thesis
      using "1.IH"[OF True refl]
      by (simp add: feed_more pending_take_step)
  next
    case False
    then show ?thesis by (simp add: feed_done)
  qed
qed

subsection \<open>The outer loop and the session\<close>

text \<open>The outer loop of \<^verbatim>\<open>getMessages\<close>, from its test, with the value of
  \<^verbatim>\<open>closed\<close>; it ends normally (\<open>Inr\<close>) or by a rejected \<^verbatim>\<open>read()\<close> (\<open>Inl\<close>, with the
  session as the rejection found it).\<close>

function readLoop :: "(byte \<Rightarrow> bool) \<Rightarrow> session \<Rightarrow> bool \<Rightarrow> (nat \<times> session) + session" where
  "readLoop vp s closed =
    (if \<not> closed \<and> \<not> clientClosed s then
       (case fst (reader_read (reader s)) of
          ReadRejects e \<Rightarrow> Inl (e, s\<lparr>reader := snd (reader_read (reader s))\<rparr>)
        | ReadResult v d \<Rightarrow>
            readLoop vp
              (case v of
                 None \<Rightarrow> s\<lparr>reader := snd (reader_read (reader s))\<rparr>
               | Some chunk \<Rightarrow>
                   if 0 < length chunk
                   then feed vp (s\<lparr>reader := snd (reader_read (reader s))\<rparr>) chunk 0
                   else s\<lparr>reader := snd (reader_read (reader s))\<rparr>)
              d)
     else Inr s)"
  by pat_completeness auto
termination
  apply (relation "measure (\<lambda>(vp, s, closed).
     2 * length (pending (reader s)) + (if closed then 0 else 1))")
   apply simp
  apply (auto simp: pending_feed reader_read_def split: option.splits list.splits if_splits)
  done

declare readLoop.simps [simp del]

text \<open>\<^verbatim>\<open>getMessages\<close>, pulled until it is done: the session at the end, with the
  finish result returned (\<open>Inr\<close>) or the error thrown (\<open>Inl\<close>).\<close>

definition getMessages :: "(byte \<Rightarrow> bool) \<Rightarrow> session \<Rightarrow> session \<times> (nat + SSEParseResult)" where
  "getMessages vp s =
    (case finishedWith s of
       Some r \<Rightarrow> (s, Inr r)
     | None \<Rightarrow>
         (case readLoop vp
                 (s\<lparr>heap := heap s @ [[]],
                    ctx := \<lparr>message = length (heap s), decoder = new_TextDecoder\<rparr>,
                    stateIterator := Created fieldStart\<rparr>) False of
            Inl (e, s1) \<Rightarrow> (s1\<lparr>finishedWith := Some (ParseResult THROWN (Some e))\<rparr>, Inl e)
          | Inr s1 \<Rightarrow>
              (let r = ParseResult (if clientClosed s1 then CLIENT_CLOSED else SERVER_CLOSED) None
               in (s1\<lparr>finishedWith := Some r\<rparr>, Inr r))))"

text \<open>\<^verbatim>\<open>new SSEResponseParser(reader)\<close> in front of a consumer.\<close>

definition new_session :: "read_result list \<Rightarrow> nat option \<Rightarrow> session" where
  "new_session rs consumer =
    \<lparr>reader = \<lparr>pending = rs, cancelled = False\<rparr>, clientClosed = False, finishedWith = None,
     heap = [], ctx = \<lparr>message = 0, decoder = new_TextDecoder\<rparr>,
     stateIterator = Created fieldStart, yielded = [], closeAfter = consumer\<rparr>"

text \<open>A whole session: the consumer iterates \<^verbatim>\<open>getMessages()\<close> to its end, closing as
  \<open>consumer\<close> says.\<close>

definition run :: "(byte \<Rightarrow> bool) \<Rightarrow> nat option \<Rightarrow> read_result list \<Rightarrow> session \<times> (nat + SSEParseResult)" where
  "run vp consumer rs =
    getMessages vp
      (if consumer = Some 0 then fst (close (new_session rs consumer))
       else new_session rs consumer)"

text \<open>The messages the consumer was handed, as it saw them.\<close>

definition messages :: "session \<times> (nat + SSEParseResult) \<Rightarrow> Message list" where
  "messages r = map snd (yielded (fst r))"

text \<open>A byte source that delivers the given chunks and then ends.\<close>

definition chunks :: "byte list list \<Rightarrow> read_result list" where
  "chunks cs = map (\<lambda>c. ReadResult (Some c) False) cs"

section \<open>The store of message objects\<close>

text \<open>
  The invariant of a session: the in-progress message exists; the references handed to
  the consumer grow strictly; each still holds the contents it was handed over with, and
  is older than the in-progress message, except at the very moment of the hand-over,
  when \<^verbatim>\<open>fieldStart\<close> is suspended at its \<^verbatim>\<open>yield\<close> and \<^verbatim>\<open>ctx.message\<close> is
  not replaced yet.
\<close>

definition is_MessageYield :: "iterator \<Rightarrow> bool" where
  "is_MessageYield it = (case it of MessageYield ch p \<Rightarrow> True | _ \<Rightarrow> False)"

definition store_ok :: "session \<Rightarrow> bool" where
  "store_ok s \<longleftrightarrow>
     message (ctx s) < length (heap s) \<and>
     sorted_wrt (<) (map fst (yielded s)) \<and>
     (\<forall>(r, m) \<in> set (yielded s).
        r \<le> message (ctx s) \<and> heap s ! r = m \<and>
        (r = message (ctx s) \<longrightarrow> is_MessageYield (stateIterator s)))"

lemma close_fields [simp]:
  "heap (fst (close s)) = heap s" "ctx (fst (close s)) = ctx s"
  "yielded (fst (close s)) = yielded s" "closeAfter (fst (close s)) = closeAfter s"
  by (simp_all add: close_def Let_def)

lemma yield_message_fields [simp]:
  "heap (yield_message s r) = heap s" "ctx (yield_message s r) = ctx s"
  "yielded (yield_message s r) = yielded s @ [(r, heap s ! r)]"
  "closeAfter (yield_message s r) = closeAfter s"
  by (simp_all add: yield_message_def Let_def)

lemma store_ok_yield:
  assumes "store_ok s" "\<not> is_MessageYield (stateIterator s)"
  shows "store_ok (yield_message (s\<lparr>stateIterator := MessageYield ch p\<rparr>) (message (ctx s)))"
  using assms
  by (auto simp: store_ok_def sorted_wrt_append is_MessageYield_def order_less_le)

lemma store_ok_iterator:
  assumes "store_ok s" "\<not> is_MessageYield (stateIterator s)"
  shows "store_ok (s\<lparr>stateIterator := it\<rparr>)"
  using assms by (auto simp: store_ok_def)

lemma store_ok_decoder:
  assumes "store_ok s" "\<not> is_MessageYield (stateIterator s)"
  shows "store_ok (s\<lparr>heap := heap s, ctx := (ctx s)\<lparr>decoder := d\<rparr>, stateIterator := it\<rparr>)"
  using assms by (auto simp: store_ok_def)

lemma store_ok_assign:
  assumes "store_ok s" "\<not> is_MessageYield (stateIterator s)"
  shows "store_ok (s\<lparr>heap := (heap s)[message (ctx s) := m], ctx := (ctx s)\<lparr>decoder := d\<rparr>,
            stateIterator := it\<rparr>)"
  using assms by (auto simp: store_ok_def)

lemma store_ok_fresh:
  assumes "store_ok s"
  shows "store_ok (s\<lparr>heap := heap s @ [[]], ctx := (ctx s)\<lparr>message := length (heap s)\<rparr>,
            stateIterator := Created st\<rparr>)"
  using assms by (auto simp: store_ok_def nth_append is_MessageYield_def)

lemma store_ok_take_step:
  assumes "store_ok s"
  shows "store_ok (fst (take_step s pos (iterator_next vp (stateIterator s) (heap s) (ctx s) chunk pos)))"
proof (cases "stateIterator s")
  case (Created st)
  with assms show ?thesis by (auto simp: take_step_def store_ok_def is_MessageYield_def)
next
  case (FirstYield st)
  have nm: "\<not> is_MessageYield (stateIterator s)" using FirstYield by (simp add: is_MessageYield_def)
  note intros = store_ok_yield[OF assms nm] store_ok_iterator[OF assms nm]
    store_ok_decoder[OF assms nm] store_ok_assign[OF assms nm]
  show ?thesis
  proof (cases st)
    case fieldStart
    show ?thesis
      using FirstYield fieldStart intros
      by (auto simp: take_step_def Let_def)
  next
    case fieldName
    then show ?thesis
       using FirstYield intros
      by (auto simp: take_step_def collect_result_def collectUntilChar_def
          fieldName_end_def Let_def split: option.splits)
  next
    case (fieldValue x3)
    then show ?thesis
       using FirstYield intros
      by (auto simp: take_step_def collect_result_def collectUntilChar_def
          fieldValue_end_def Let_def split: option.splits)
  next
    case skipComment
    then show ?thesis
     using FirstYield intros
      by (auto simp: take_step_def skipComment_scan_def Let_def split: option.splits)
  next
    case (skipLF x5)
    then show ?thesis
    using FirstYield intros
      by (auto simp: take_step_def Let_def)
  qed
next
  case (MessageYield ch p0)
  with store_ok_fresh[OF assms] show ?thesis
    by (auto simp: take_step_def)
next
  case (NameMore b r)
  then have nm: "\<not> is_MessageYield (stateIterator s)" by (simp add: is_MessageYield_def)
  note intros = store_ok_yield[OF assms nm] store_ok_iterator[OF assms nm]
    store_ok_decoder[OF assms nm] store_ok_assign[OF assms nm]
  from NameMore intros show ?thesis
      by (auto simp: take_step_def collect_result_def collectUntilChar_def
          fieldName_end_def Let_def split: option.splits)
next
  case (ValueMore n b r)
  then have nm: "\<not> is_MessageYield (stateIterator s)" by (simp add: is_MessageYield_def)
  note intros = store_ok_yield[OF assms nm] store_ok_iterator[OF assms nm]
    store_ok_decoder[OF assms nm] store_ok_assign[OF assms nm]
  from ValueMore intros show ?thesis
      by (auto simp: take_step_def collect_result_def collectUntilChar_def
          fieldValue_end_def Let_def split: option.splits)
next
  case CommentMore
  then have nm: "\<not> is_MessageYield (stateIterator s)" by (simp add: is_MessageYield_def)
  note intros = store_ok_yield[OF assms nm] store_ok_iterator[OF assms nm]
    store_ok_decoder[OF assms nm] store_ok_assign[OF assms nm]
  from CommentMore intros show ?thesis
      by (auto simp: take_step_def skipComment_scan_def Let_def split: option.splits)
qed


lemma feed_invariant_aux:
  "Q s pos \<Longrightarrow>
   (\<forall>s pos. pos < length chunk \<longrightarrow> Q s pos \<longrightarrow>
      Q (fst (take_step s pos (iterator_next vp (stateIterator s) (heap s) (ctx s) chunk pos)))
        (snd (take_step s pos (iterator_next vp (stateIterator s) (heap s) (ctx s) chunk pos))))
   \<Longrightarrow> \<exists>p. \<not> p < length chunk \<and> Q (feed vp s chunk pos) p"
proof (induction vp s chunk pos rule: feed.induct)
  case (1 vp s chunk currentPos)
  show ?case
  proof (cases "currentPos < length chunk")
    case True
    have "Q (fst (take_step s currentPos (iterator_next vp (stateIterator s) (heap s) (ctx s) chunk currentPos)))
        (snd (take_step s currentPos (iterator_next vp (stateIterator s) (heap s) (ctx s) chunk currentPos)))"
      using "1.prems" True by blast
    from "1.IH"[OF True refl this "1.prems"(2)] show ?thesis
      by (simp add: feed_more[OF True])
  next
    case False
    with "1.prems" show ?thesis by (auto simp: feed_done)
  qed
qed

lemma feed_invariant:
  assumes "Q s pos"
    and "\<And>s pos. pos < length chunk \<Longrightarrow> Q s pos \<Longrightarrow>
           Q (fst (take_step s pos (iterator_next vp (stateIterator s) (heap s) (ctx s) chunk pos)))
             (snd (take_step s pos (iterator_next vp (stateIterator s) (heap s) (ctx s) chunk pos)))"
  shows "\<exists>p. \<not> p < length chunk \<and> Q (feed vp s chunk pos) p"
  using feed_invariant_aux[of Q s pos chunk vp] assms by blast

lemma store_ok_feed: "store_ok s \<Longrightarrow> store_ok (feed vp s chunk pos)"
  using feed_invariant[where Q = "\<lambda>s p. store_ok s"] store_ok_take_step by blast

lemma MessageYield_take_step:
  assumes "is_MessageYield (stateIterator (fst (take_step s pos (iterator_next vp (stateIterator s) (heap s) (ctx s) chunk pos))))"
  shows "snd (take_step s pos (iterator_next vp (stateIterator s) (heap s) (ctx s) chunk pos)) = pos"
proof (cases "stateIterator s")
  case (FirstYield st)
  with assms show ?thesis
    by (cases st)
       (auto simp: take_step_def collect_result_def collectUntilChar_def skipComment_scan_def
          fieldName_end_def fieldValue_end_def is_MessageYield_def Let_def
          split: if_splits option.splits)
qed (use assms in \<open>auto simp: take_step_def collect_result_def collectUntilChar_def
          skipComment_scan_def fieldName_end_def fieldValue_end_def is_MessageYield_def Let_def
          split: if_splits option.splits\<close>)

lemma feed_not_MessageYield:
  assumes "\<not> is_MessageYield (stateIterator s)"
  shows "\<not> is_MessageYield (stateIterator (feed vp s chunk pos))"
proof -
  have "\<exists>p. \<not> p < length chunk \<and>
          (is_MessageYield (stateIterator (feed vp s chunk pos)) \<longrightarrow> p < length chunk)"
    by (rule feed_invariant[where Q = "\<lambda>s p. is_MessageYield (stateIterator s) \<longrightarrow> p < length chunk"])
       (use assms MessageYield_take_step in auto)
  then show ?thesis by blast
qed

lemma readLoop_invariant_aux:
  "P s \<Longrightarrow> (\<forall>s r. P s \<longrightarrow> P (s\<lparr>reader := r\<rparr>)) \<Longrightarrow> (\<forall>s chunk. P s \<longrightarrow> P (feed vp s chunk 0))
   \<Longrightarrow> (case readLoop vp s closed of Inl (e, s') \<Rightarrow> P s' | Inr s' \<Rightarrow> P s')"
proof (induction vp s closed rule: readLoop.induct)
  case (1 vp s closed)
  show ?case
  proof (cases "\<not> closed \<and> \<not> clientClosed s")
    case False
    then show ?thesis using "1.prems"(1) by (subst readLoop.simps) auto
  next
    case True
    show ?thesis
    proof (cases "fst (reader_read (reader s))")
      case (ReadRejects e)
      with True "1.prems" show ?thesis by (subst readLoop.simps) auto
    next
      case (ReadResult v d)
      let ?s' = "(case v of
                 None \<Rightarrow> s\<lparr>reader := snd (reader_read (reader s))\<rparr>
               | Some chunk \<Rightarrow>
                   if 0 < length chunk
                   then feed vp (s\<lparr>reader := snd (reader_read (reader s))\<rparr>) chunk 0
                   else s\<lparr>reader := snd (reader_read (reader s))\<rparr>)"
      have "P ?s'" using "1.prems" by (auto split: option.splits)
      from "1.IH"[OF True ReadResult this "1.prems"(2,3)] show ?thesis
        using True ReadResult by (subst readLoop.simps) simp
    qed
  qed
qed

lemma run_invariant:
  assumes init: "\<And>s. heap s = [] \<Longrightarrow> yielded s = [] \<Longrightarrow>
            P (s\<lparr>heap := heap s @ [[]], ctx := \<lparr>message = length (heap s), decoder = new_TextDecoder\<rparr>,
                 stateIterator := Created fieldStart\<rparr>)"
    and reader: "\<And>s r. P s \<Longrightarrow> P (s\<lparr>reader := r\<rparr>)"
    and feed: "\<And>s chunk. P s \<Longrightarrow> P (feed vp s chunk 0)"
    and fin: "\<And>s r. P s \<Longrightarrow> P (s\<lparr>finishedWith := r\<rparr>)"
  shows "P (fst (run vp consumer rs))"
proof -
  define s0 where "s0 = (if consumer = Some 0 then fst (close (new_session rs consumer))
       else new_session rs consumer)"
  have s0: "heap s0 = []" "yielded s0 = []" "finishedWith s0 = None"
    by (auto simp: s0_def new_session_def close_def Let_def)
  let ?s1 = "s0\<lparr>heap := heap s0 @ [[]], ctx := \<lparr>message = length (heap s0), decoder = new_TextDecoder\<rparr>,
                 stateIterator := Created fieldStart\<rparr>"
  have "case readLoop vp ?s1 False of Inl (e, s') \<Rightarrow> P s' | Inr s' \<Rightarrow> P s'"
    by (rule readLoop_invariant_aux) (use init[OF s0(1,2)] reader feed in auto)
  then show ?thesis
    unfolding run_def s0_def[symmetric] getMessages_def
    by (auto simp: s0 Let_def fin split: sum.splits)
qed

lemma store_ok_run: "store_ok (fst (run vp consumer rs)) \<and> \<not> is_MessageYield (stateIterator (fst (run vp consumer rs)))"
proof (rule run_invariant[where P = "\<lambda>s. store_ok s \<and> \<not> is_MessageYield (stateIterator s)"])
  fix s :: session and chunk
  assume "store_ok s \<and> \<not> is_MessageYield (stateIterator s)"
  then show "store_ok (feed vp s chunk 0) \<and> \<not> is_MessageYield (stateIterator (feed vp s chunk 0))"
    by (simp add: store_ok_feed feed_not_MessageYield)
qed (auto simp: store_ok_def is_MessageYield_def)


section \<open>Running the program on concrete streams\<close>

lemma readLoop_stop: "closed \<or> clientClosed s \<Longrightarrow> readLoop vp s closed = Inr s"
  by (subst readLoop.simps) auto

lemma readLoop_more:
  "\<not> closed \<Longrightarrow> \<not> clientClosed s \<Longrightarrow> readLoop vp s closed =
     (case fst (reader_read (reader s)) of
        ReadRejects e \<Rightarrow> Inl (e, s\<lparr>reader := snd (reader_read (reader s))\<rparr>)
      | ReadResult v d \<Rightarrow>
          readLoop vp
            (case v of
               None \<Rightarrow> s\<lparr>reader := snd (reader_read (reader s))\<rparr>
             | Some chunk \<Rightarrow>
                 if 0 < length chunk
                 then feed vp (s\<lparr>reader := snd (reader_read (reader s))\<rparr>) chunk 0
                 else s\<lparr>reader := snd (reader_read (reader s))\<rparr>)
            d)"
  by (subst readLoop.simps) simp

lemmas run_eval =
  run_def messages_def chunks_def getMessages_def new_session_def readLoop_stop readLoop_more
  reader_read_def reader_cancel_def close_def yield_message_def
  feed_more feed_done take_step_def octets_def ascii_def
  COLON_def CR_def LF_def SPACE_def notNameChar_def lineEndChar_def at_def
  utf8_initial_def utf8_lead_def utf8_handler_def utf8_end_def utf16_def new_TextDecoder_def
  decode_stream_def decode_flush_def proto_name_def obj_set_def obj_get_or_empty_def
  digit_def decimal_def array_index_def Object_keys_def List.map_filter_def
  skipLFAfterCR_def add_bytes_def collectUntilChar_def fieldName_end_def fieldValue_end_def
  collect_result_def skipComment_scan_def Let_def

text \<open>
  C1 (chunk-boundary invariance) fails on the code. The stream \<^verbatim>\<open>data:  x\n\n\<close>, whose
  value begins with two spaces, gives \<^verbatim>\<open>data = " x\n"\<close> as one chunk, and
  \<^verbatim>\<open>data = "x\n"\<close> when it is cut after the first space: \<^verbatim>\<open>collectUntilChar\<close> takes
  an empty \<^verbatim>\<open>buffer\<close> for the start of the value, and the buffer is still empty after
  a fragment that held the stripped space alone.
\<close>

theorem chunking_changes_the_message:
  "messages (run lineEndChar None (chunks [octets ''data:  x'' @ [LF, LF]]))
     = [[(ascii ''data'', ascii '' x'' @ [0x0A])]]
   \<and> messages (run lineEndChar None (chunks [octets ''data: '', octets '' x'' @ [LF, LF]]))
     = [[(ascii ''data'', ascii ''x'' @ [0x0A])]]"
  by (simp add: run_eval)

text \<open>
  C4 (exactly one leading space is stripped, however the value is split) fails on the
  code: the value of \<^verbatim>\<open>event:  a\<close> is \<^verbatim>\<open>" a"\<close>, yet with the chunks \<^verbatim>\<open>"event: "\<close> and
  \<^verbatim>\<open>" a\n\n"\<close> both spaces are stripped.
\<close>

theorem second_space_stripped_across_chunks:
  "messages (run lineEndChar None (chunks [octets ''event: '', octets '' a'' @ [LF, LF]]))
     = [[(ascii ''event'', ascii ''a'')]]"
  by (simp add: run_eval)

text \<open>
  C5 (a colon inside a field value is content) fails on the compiled variant of the
  parser, whose \<^verbatim>\<open>fieldValue\<close> hands \<^verbatim>\<open>notNameChar\<close> to \<^verbatim>\<open>collectUntilChar\<close>: the line
  \<^verbatim>\<open>data:a:b\<close> stores \<^verbatim>\<open>data = "a\n"\<close> and then a second field \<^verbatim>\<open>b\<close> with an empty
  value.
\<close>

theorem compiled_fieldValue_stops_at_colon:
  "messages (run notNameChar None (chunks [octets ''data:a:b'' @ [LF, LF]]))
     = [[(ascii ''data'', ascii ''a'' @ [0x0A]), (ascii ''b'', [])]]"
  by (simp add: run_eval)

text \<open>The TypeScript source, with \<open>lineEndChar\<close>, keeps the colon in the value.\<close>

lemma source_fieldValue_keeps_colon:
  "messages (run lineEndChar None (chunks [octets ''data:a:b'' @ [LF, LF]]))
     = [[(ascii ''data'', ascii ''a:b'' @ [0x0A])]]"
  by (simp add: run_eval)

text \<open>
  C7 (a message is emitted only at a blank line, never for a record left open at the end
  of the stream) fails on the code: \<^verbatim>\<open>skipComment\<close> returns the position of the line
  terminator, not the one after it, so \<^verbatim>\<open>fieldStart\<close> reads the end of a comment line
  as a blank line. The stream \<^verbatim>\<open>data:x\n:c\n\<close> has no blank line and ends with its
  record open; the record is emitted all the same, and the session finishes with
  SERVER_CLOSED.
\<close>

theorem comment_line_emits_open_record:
  "messages (run lineEndChar None (chunks [octets ''data:x'' @ [LF] @ octets '':c'' @ [LF]]))
     = [[(ascii ''data'', ascii ''x'' @ [0x0A])]]
   \<and> snd (run lineEndChar None (chunks [octets ''data:x'' @ [LF] @ octets '':c'' @ [LF]]))
     = Inr (ParseResult SERVER_CLOSED None)"
  by (simp add: run_eval)

section \<open>Whole lines inside one chunk\<close>

text \<open>
  What the state machine does with a line that lies inside one chunk, terminator
  included, when it starts the line in \<^verbatim>\<open>fieldStart\<close>: \<open>line_effect\<close>. A blank line hands
  over the message in progress, if it has a key, and starts a new one. A comment line
  does the same, since \<^verbatim>\<open>skipComment\<close> leaves the position on the terminator. A line
  with a colon stores the decoded name with the decoded value, one leading space
  stripped; a line without one stores the name with the empty string.
\<close>

lemma findIndex_first:
  "\<forall>x\<in>set xs. \<not> P x \<Longrightarrow> P y \<Longrightarrow> findIndex P (xs @ y # ys) = Some (length xs)"
  by (induction xs) auto

text \<open>One-shot decoding: \<^verbatim>\<open>decode(bytes, {stream: true})\<close> followed by the flush.\<close>
definition decode_all :: "byte list \<Rightarrow> jstring" where
  "decode_all bs =
     snd (decode_stream new_TextDecoder bs) @ snd (decode_flush (fst (decode_stream new_TextDecoder bs)))"

definition strip_space :: "byte list \<Rightarrow> byte list" where
  "strip_space bs = (if 0 < length bs \<and> at bs 0 = Some SPACE then drop 1 bs else bs)"

lemma decode_stream_fresh:
  "\<not> do_not_flush d \<Longrightarrow> decode_stream d bs = decode_stream new_TextDecoder bs"
  by (simp add: decode_stream_def new_TextDecoder_def)

lemma collect_found:
  assumes "\<forall>x\<in>set xs. \<not> P x" "P y" "\<not> do_not_flush d"
  shows "collectUntilChar P sk d [] (pre @ xs @ y # ys) (length pre)
     = (new_TextDecoder, Ended y (decode_all (if sk then strip_space xs else xs)) (length pre + length xs + 1))"
  using assms
  by (simp add: collectUntilChar_def findIndex_first add_bytes_def Let_def decode_all_def
      strip_space_def decode_stream_fresh nth_append)

lemma feed_Created:
  assumes "pos < length chunk" "stateIterator s = Created st"
  shows "feed vp s chunk pos = feed vp (s\<lparr>stateIterator := FirstYield st\<rparr>) chunk pos"
  using assms by (simp add: feed_more take_step_def)


definition blank_line :: "session \<Rightarrow> session" where
  "blank_line s =
    (let s1 = (if 0 < length (Object_keys (heap s ! message (ctx s)))
               then yield_message s (message (ctx s)) else s)
     in s1\<lparr>heap := heap s1 @ [[]], ctx := (ctx s1)\<lparr>message := length (heap s1)\<rparr>\<rparr>)"

definition store_field :: "session \<Rightarrow> jstring \<Rightarrow> jstring \<Rightarrow> session" where
  "store_field s name v =
     s\<lparr>heap := (heap s)[message (ctx s) := obj_set (heap s ! message (ctx s)) name v]\<rparr>"

definition field_value :: "Message \<Rightarrow> jstring \<Rightarrow> jstring \<Rightarrow> jstring" where
  "field_value m name v =
     (if name = ascii ''data'' then obj_get_or_empty m name @ v @ ascii [CHR 0x0A] else v)"

definition line_effect :: "session \<Rightarrow> byte list \<Rightarrow> session" where
  "line_effect s l =
    (if l = [] then blank_line s
     else if hd l = COLON then blank_line s
     else if COLON \<in> set l then
       (let name = decode_all (takeWhile (\<lambda>b. b \<noteq> COLON) l);
            v = decode_all (strip_space (tl (dropWhile (\<lambda>b. b \<noteq> COLON) l)))
        in store_field s name (field_value (heap s ! message (ctx s)) name v))
     else store_field s (decode_all l) [])"

lemma close_stateIterator:
  "fst (close (s\<lparr>stateIterator := it\<rparr>)) = (fst (close s))\<lparr>stateIterator := it\<rparr>"
  by (simp add: close_def Let_def)

lemma yield_message_stateIterator:
  "yield_message (s\<lparr>stateIterator := it\<rparr>) r = (yield_message s r)\<lparr>stateIterator := it\<rparr>"
  by (simp add: yield_message_def Let_def close_def)

lemma at_append_length [simp]: "at (pre @ c # post) (length pre) = Some c"
  by (simp add: at_def)

lemma byte_distinct [simp]:
  "COLON \<noteq> LF" "COLON \<noteq> CR" "CR \<noteq> LF" "LF \<noteq> COLON" "CR \<noteq> COLON" "LF \<noteq> CR"
  by (simp_all add: COLON_def LF_def CR_def)

lemma feed_MessageYield:
  assumes "pos < length chunk" "stateIterator s = MessageYield c p0"
  shows "feed vp s chunk pos
       = feed vp (s\<lparr>heap := heap s @ [[]], ctx := (ctx s)\<lparr>message := length (heap s)\<rparr>,
                    stateIterator := Created (skipLFAfterCR c fieldStart)\<rparr>) chunk (p0 + 1)"
  using assms by (simp add: feed_more take_step_def)

lemma feed_fieldStart_line_end:
  assumes "stateIterator s = FirstYield fieldStart" "c = CR \<or> c = LF"
  shows "feed vp s (pre @ c # post) (length pre)
       = feed vp ((if 0 < length (Object_keys (heap s ! message (ctx s)))
                   then yield_message s (message (ctx s)) else s)
                  \<lparr>stateIterator := MessageYield c (length pre)\<rparr>) (pre @ c # post) (length pre)"
proof (cases "0 < length (Object_keys (heap s ! message (ctx s)))")
  case True
  with assms show ?thesis
    by (auto simp add: feed_more take_step_def yield_message_stateIterator)
next
  case False
  with assms show ?thesis
    by (auto simp add: feed_more take_step_def)
qed

lemma feed_blank:
  assumes "stateIterator s = FirstYield fieldStart" "c = CR \<or> c = LF"
  shows "feed vp s (pre @ c # post) (length pre)
       = feed vp ((blank_line s)\<lparr>stateIterator := Created (skipLFAfterCR c fieldStart)\<rparr>)
           (pre @ c # post) (length pre + 1)"
  by (simp add: feed_fieldStart_line_end[OF assms] feed_MessageYield blank_line_def Let_def)

lemma feed_fieldStart_colon:
  assumes "stateIterator s = FirstYield fieldStart"
  shows "feed vp s (pre @ COLON # post) (length pre)
       = feed vp (s\<lparr>stateIterator := Created skipComment\<rparr>) (pre @ COLON # post) (length pre + 1)"
  using assms by (simp add: feed_more take_step_def)

lemma feed_fieldStart_name:
  assumes "stateIterator s = FirstYield fieldStart" "b \<noteq> COLON" "b \<noteq> CR" "b \<noteq> LF"
  shows "feed vp s (pre @ b # post) (length pre)
       = feed vp (s\<lparr>stateIterator := Created fieldName\<rparr>) (pre @ b # post) (length pre)"
  using assms by (simp add: feed_more take_step_def)

lemma feed_skipLF:
  assumes "stateIterator s = FirstYield (skipLF st)"
  shows "feed vp s (pre @ b # post) (length pre)
       = feed vp (s\<lparr>stateIterator := Created st\<rparr>) (pre @ b # post)
           (if b = LF then length pre + 1 else length pre)"
  using assms by (simp add: feed_more take_step_def)

lemma feed_skipComment:
  assumes "stateIterator s = FirstYield skipComment" "\<forall>b\<in>set r. \<not> lineEndChar b" "lineEndChar c"
  shows "feed vp s (pre @ r @ c # post) (length pre)
       = feed vp (s\<lparr>stateIterator := Created (skipLFAfterCR c fieldStart)\<rparr>)
           (pre @ r @ c # post) (length pre + length r)"
  using assms
  by (simp add: feed_more take_step_def skipComment_scan_def findIndex_first nth_append)

lemma feed_fieldName_colon:
  assumes "stateIterator s = FirstYield fieldName" "\<forall>b\<in>set n. \<not> notNameChar b"
    "\<not> do_not_flush (decoder (ctx s))"
  shows "feed vp s (pre @ n @ COLON # post) (length pre)
       = feed vp (s\<lparr>ctx := (ctx s)\<lparr>decoder := new_TextDecoder\<rparr>,
                    stateIterator := Created (fieldValue (decode_all n))\<rparr>)
           (pre @ n @ COLON # post) (length pre + length n + 1)"
proof -
  have c: "collectUntilChar notNameChar False (decoder (ctx s)) [] (pre @ n @ COLON # post) (length pre)
      = (new_TextDecoder, Ended COLON (decode_all n) (length pre + length n + 1))"
    using collect_found[of n notNameChar COLON "decoder (ctx s)" False pre post] assms
    by (simp add: notNameChar_def)
  show ?thesis
    using assms(1) by (simp add: feed_more take_step_def c collect_result_def fieldName_end_def)
qed

lemma feed_fieldName_line_end:
  assumes "stateIterator s = FirstYield fieldName" "\<forall>b\<in>set n. \<not> notNameChar b"
    "\<not> do_not_flush (decoder (ctx s))" "c = CR \<or> c = LF"
  shows "feed vp s (pre @ n @ c # post) (length pre)
       = feed vp ((store_field s (decode_all n) [])
                  \<lparr>ctx := (ctx s)\<lparr>decoder := new_TextDecoder\<rparr>,
                    stateIterator := Created (skipLFAfterCR c fieldStart)\<rparr>)
           (pre @ n @ c # post) (length pre + length n + 1)"
proof -
  have c: "collectUntilChar notNameChar False (decoder (ctx s)) [] (pre @ n @ c # post) (length pre)
      = (new_TextDecoder, Ended c (decode_all n) (length pre + length n + 1))"
    using collect_found[of n notNameChar c "decoder (ctx s)" False pre post] assms
    by (auto simp add: notNameChar_def)
  show ?thesis
    using assms(1,4)
    by (auto simp add: feed_more take_step_def c collect_result_def fieldName_end_def store_field_def)
qed

lemma feed_fieldValue:
  assumes "stateIterator s = FirstYield (fieldValue name)" "\<forall>b\<in>set v. \<not> lineEndChar b"
    "\<not> do_not_flush (decoder (ctx s))" "lineEndChar c"
  shows "feed lineEndChar s (pre @ v @ c # post) (length pre)
       = feed lineEndChar
           ((store_field s name (field_value (heap s ! message (ctx s)) name (decode_all (strip_space v))))
                  \<lparr>ctx := (ctx s)\<lparr>decoder := new_TextDecoder\<rparr>,
                    stateIterator := Created (skipLFAfterCR c fieldStart)\<rparr>)
           (pre @ v @ c # post) (length pre + length v + 1)"
proof -
  have c: "collectUntilChar lineEndChar True (decoder (ctx s)) [] (pre @ v @ c # post) (length pre)
      = (new_TextDecoder, Ended c (decode_all (strip_space v)) (length pre + length v + 1))"
    using collect_found[of v lineEndChar c "decoder (ctx s)" True pre post] assms
    by simp
  show ?thesis
    using assms(1)
    by (simp add: feed_more take_step_def c collect_result_def fieldValue_end_def store_field_def
        field_value_def)
qed


lemma line_effect_fields [simp]:
  "stateIterator (blank_line s) = stateIterator s" "decoder (ctx (blank_line s)) = decoder (ctx s)"
  "stateIterator (store_field s n v) = stateIterator s" "ctx (store_field s n v) = ctx s"
  by (simp_all add: blank_line_def store_field_def Let_def)

lemma feed_blank_line:
  assumes "stateIterator s = Created fieldStart" "lineEndChar c"
  shows "feed vp s (pre @ c # post) (length pre)
       = feed vp ((blank_line s)\<lparr>stateIterator := Created (skipLFAfterCR c fieldStart)\<rparr>)
           (pre @ c # post) (length pre + 1)"
proof -
  have "feed vp s (pre @ c # post) (length pre)
      = feed vp (s\<lparr>stateIterator := FirstYield fieldStart\<rparr>) (pre @ c # post) (length pre)"
    using assms(1) by (simp add: feed_Created)
  also have "\<dots> = feed vp ((blank_line (s\<lparr>stateIterator := FirstYield fieldStart\<rparr>))
        \<lparr>stateIterator := Created (skipLFAfterCR c fieldStart)\<rparr>) (pre @ c # post) (length pre + 1)"
    using assms(2) by (intro feed_blank) (simp_all add: lineEndChar_def)
  also have "(blank_line (s\<lparr>stateIterator := FirstYield fieldStart\<rparr>))
        \<lparr>stateIterator := Created (skipLFAfterCR c fieldStart)\<rparr>
      = (blank_line s)\<lparr>stateIterator := Created (skipLFAfterCR c fieldStart)\<rparr>"
    by (simp add: blank_line_def Let_def yield_message_stateIterator)
  finally show ?thesis .
qed

lemma feed_after_comment:
  assumes "stateIterator s = Created (skipLFAfterCR c fieldStart)" "lineEndChar c"
  shows "feed vp s (pre @ c # post) (length pre)
       = feed vp ((blank_line s)\<lparr>stateIterator := Created (skipLFAfterCR c fieldStart)\<rparr>)
           (pre @ c # post) (length pre + 1)"
proof (cases "c = LF")
  case True
  with assms show ?thesis by (simp add: skipLFAfterCR_def feed_blank_line)
next
  case False
  then have it: "stateIterator s = Created (skipLF fieldStart)"
    using assms by (simp add: skipLFAfterCR_def)
  have "feed vp s (pre @ c # post) (length pre)
      = feed vp (s\<lparr>stateIterator := FirstYield (skipLF fieldStart)\<rparr>) (pre @ c # post) (length pre)"
    using it by (simp add: feed_Created)
  also have "\<dots> = feed vp (s\<lparr>stateIterator := Created fieldStart\<rparr>) (pre @ c # post) (length pre)"
    using False by (simp add: feed_skipLF)
  also have "\<dots> = feed vp ((blank_line (s\<lparr>stateIterator := Created fieldStart\<rparr>))
        \<lparr>stateIterator := Created (skipLFAfterCR c fieldStart)\<rparr>) (pre @ c # post) (length pre + 1)"
    using assms(2) by (intro feed_blank_line) simp_all
  also have "(blank_line (s\<lparr>stateIterator := Created fieldStart\<rparr>))
        \<lparr>stateIterator := Created (skipLFAfterCR c fieldStart)\<rparr>
      = (blank_line s)\<lparr>stateIterator := Created (skipLFAfterCR c fieldStart)\<rparr>"
    by (simp add: blank_line_def Let_def yield_message_stateIterator)
  finally show ?thesis .
qed

lemma feed_comment_line:
  assumes "stateIterator s = Created fieldStart" "lineEndChar c" "\<forall>b\<in>set r. \<not> lineEndChar b"
  shows "feed vp s (pre @ (COLON # r) @ c # post) (length pre)
       = feed vp ((blank_line s)\<lparr>stateIterator := Created (skipLFAfterCR c fieldStart)\<rparr>)
           (pre @ (COLON # r) @ c # post) (length pre + length (COLON # r) + 1)"
proof -
  let ?chunk = "pre @ COLON # r @ c # post"
  have "feed vp s ?chunk (length pre)
      = feed vp (s\<lparr>stateIterator := FirstYield fieldStart\<rparr>) ?chunk (length pre)"
    using assms(1) by (simp add: feed_Created)
  also have "\<dots> = feed vp (s\<lparr>stateIterator := Created skipComment\<rparr>) ?chunk (length pre + 1)"
    by (simp add: feed_fieldStart_colon)
  also have "\<dots> = feed vp (s\<lparr>stateIterator := FirstYield skipComment\<rparr>) ?chunk (length pre + 1)"
    by (simp add: feed_Created)
  also have "\<dots> = feed vp (s\<lparr>stateIterator := Created (skipLFAfterCR c fieldStart)\<rparr>) ?chunk
                      (length pre + 1 + length r)"
    using feed_skipComment[of "s\<lparr>stateIterator := FirstYield skipComment\<rparr>" r c vp "pre @ [COLON]" post]
      assms(2,3) by simp
  also have "\<dots> = feed vp ((blank_line (s\<lparr>stateIterator := Created (skipLFAfterCR c fieldStart)\<rparr>))
        \<lparr>stateIterator := Created (skipLFAfterCR c fieldStart)\<rparr>) ?chunk (length pre + 1 + length r + 1)"
    using feed_after_comment[of "s\<lparr>stateIterator := Created (skipLFAfterCR c fieldStart)\<rparr>" c vp
        "pre @ COLON # r" post] assms(2) by simp
  also have "(blank_line (s\<lparr>stateIterator := Created (skipLFAfterCR c fieldStart)\<rparr>))
        \<lparr>stateIterator := Created (skipLFAfterCR c fieldStart)\<rparr>
      = (blank_line s)\<lparr>stateIterator := Created (skipLFAfterCR c fieldStart)\<rparr>"
    by (simp add: blank_line_def Let_def yield_message_stateIterator)
  finally show ?thesis by simp
qed


lemma fresh_decoder [simp]: "\<not> do_not_flush new_TextDecoder"
  by (simp add: new_TextDecoder_def)

lemma ctx_decoder_same: "decoder c = d \<Longrightarrow> c\<lparr>decoder := d\<rparr> = c"
  by simp

lemma feed_field_line:
  assumes "stateIterator s = Created fieldStart" "decoder (ctx s) = new_TextDecoder"
    "lineEndChar c" "n \<noteq> []" "\<forall>b\<in>set n. \<not> notNameChar b" "\<forall>b\<in>set v. \<not> lineEndChar b"
  shows "feed lineEndChar s (pre @ (n @ COLON # v) @ c # post) (length pre)
       = feed lineEndChar
           ((store_field s (decode_all n)
               (field_value (heap s ! message (ctx s)) (decode_all n) (decode_all (strip_space v))))
            \<lparr>stateIterator := Created (skipLFAfterCR c fieldStart)\<rparr>)
           (pre @ (n @ COLON # v) @ c # post) (length pre + length (n @ COLON # v) + 1)"
proof -
  let ?chunk = "pre @ n @ COLON # v @ c # post"
  obtain b n' where n: "n = b # n'" using assms(4) by (cases n) auto
  have b: "b \<noteq> COLON" "b \<noteq> CR" "b \<noteq> LF"
    using assms(5) n by (auto simp: notNameChar_def)
  have "feed lineEndChar s ?chunk (length pre)
      = feed lineEndChar (s\<lparr>stateIterator := FirstYield fieldStart\<rparr>) ?chunk (length pre)"
    using assms(1) by (simp add: feed_Created n)
  also have "\<dots> = feed lineEndChar (s\<lparr>stateIterator := Created fieldName\<rparr>) ?chunk (length pre)"
    using feed_fieldStart_name[of "s\<lparr>stateIterator := FirstYield fieldStart\<rparr>" b lineEndChar pre
        "n' @ COLON # v @ c # post"] b by (simp add: n)
  also have "\<dots> = feed lineEndChar (s\<lparr>stateIterator := FirstYield fieldName\<rparr>) ?chunk (length pre)"
    by (simp add: feed_Created n)
  also have "\<dots> = feed lineEndChar (s\<lparr>stateIterator := Created (fieldValue (decode_all n))\<rparr>) ?chunk
                      (length pre + length n + 1)"
    using feed_fieldName_colon[of "s\<lparr>stateIterator := FirstYield fieldName\<rparr>" n lineEndChar pre
        "v @ c # post"] assms(2,5) by (simp add: ctx_decoder_same)
  also have "\<dots> = feed lineEndChar (s\<lparr>stateIterator := FirstYield (fieldValue (decode_all n))\<rparr>) ?chunk
                      (length pre + length n + 1)"
    by (simp add: feed_Created)
  also have "\<dots> = feed lineEndChar
           ((store_field s (decode_all n)
               (field_value (heap s ! message (ctx s)) (decode_all n) (decode_all (strip_space v))))
            \<lparr>stateIterator := Created (skipLFAfterCR c fieldStart)\<rparr>)
           ?chunk (length pre + length n + 1 + length v + 1)"
    using feed_fieldValue[of "s\<lparr>stateIterator := FirstYield (fieldValue (decode_all n))\<rparr>"
        "decode_all n" v c "pre @ n @ [COLON]" post] assms(2,3,6)
    by (simp add: ctx_decoder_same store_field_def)
  finally show ?thesis by (simp add: add.assoc)
qed

lemma feed_name_line:
  assumes "stateIterator s = Created fieldStart" "decoder (ctx s) = new_TextDecoder"
    "lineEndChar c" "n \<noteq> []" "\<forall>b\<in>set n. \<not> notNameChar b"
  shows "feed vp s (pre @ n @ c # post) (length pre)
       = feed vp ((store_field s (decode_all n) [])
                    \<lparr>stateIterator := Created (skipLFAfterCR c fieldStart)\<rparr>)
           (pre @ n @ c # post) (length pre + length n + 1)"
proof -
  let ?chunk = "pre @ n @ c # post"
  obtain b n' where n: "n = b # n'" using assms(4) by (cases n) auto
  have b: "b \<noteq> COLON" "b \<noteq> CR" "b \<noteq> LF"
    using assms(5) n by (auto simp: notNameChar_def)
  have "feed vp s ?chunk (length pre)
      = feed vp (s\<lparr>stateIterator := FirstYield fieldStart\<rparr>) ?chunk (length pre)"
    using assms(1) by (simp add: feed_Created n)
  also have "\<dots> = feed vp (s\<lparr>stateIterator := Created fieldName\<rparr>) ?chunk (length pre)"
    using feed_fieldStart_name[of "s\<lparr>stateIterator := FirstYield fieldStart\<rparr>" b vp pre
        "n' @ c # post"] b by (simp add: n)
  also have "\<dots> = feed vp (s\<lparr>stateIterator := FirstYield fieldName\<rparr>) ?chunk (length pre)"
    by (simp add: feed_Created n)
  also have "\<dots> = feed vp ((store_field s (decode_all n) [])
                    \<lparr>stateIterator := Created (skipLFAfterCR c fieldStart)\<rparr>) ?chunk
                      (length pre + length n + 1)"
    using feed_fieldName_line_end[of "s\<lparr>stateIterator := FirstYield fieldName\<rparr>" n c vp pre post]
      assms(2,3,5) by (simp add: ctx_decoder_same store_field_def lineEndChar_def)
  finally show ?thesis .
qed

lemma split_at_colon:
  assumes "COLON \<in> set l"
  shows "l = takeWhile (\<lambda>b. b \<noteq> COLON) l @ COLON # tl (dropWhile (\<lambda>b. b \<noteq> COLON) l)"
proof -
  have "dropWhile (\<lambda>b. b \<noteq> COLON) l \<noteq> []" using assms by (simp add: dropWhile_eq_Nil_conv)
  moreover have "hd (dropWhile (\<lambda>b. b \<noteq> COLON) l) = COLON"
    using assms hd_dropWhile[of "\<lambda>b. b \<noteq> COLON" l] calculation by auto
  ultimately have "dropWhile (\<lambda>b. b \<noteq> COLON) l = COLON # tl (dropWhile (\<lambda>b. b \<noteq> COLON) l)"
    by (cases "dropWhile (\<lambda>b. b \<noteq> COLON) l") auto
  then show ?thesis
    using takeWhile_dropWhile_id[of "\<lambda>b. b \<noteq> COLON" l] by simp
qed

theorem feed_line:
  assumes "stateIterator s = Created fieldStart" "decoder (ctx s) = new_TextDecoder"
    "lineEndChar c" "\<forall>b\<in>set l. \<not> lineEndChar b"
  shows "feed lineEndChar s (pre @ l @ c # post) (length pre)
       = feed lineEndChar ((line_effect s l)\<lparr>stateIterator := Created (skipLFAfterCR c fieldStart)\<rparr>)
           (pre @ l @ c # post) (length pre + length l + 1)"
proof (cases "l = []")
  case True
  then show ?thesis using feed_blank_line[OF assms(1,3), of lineEndChar pre post]
    by (simp add: line_effect_def)
next
  case False
  show ?thesis
  proof (cases "hd l = COLON")
    case True
    with False obtain r where l: "l = COLON # r" by (cases l) auto
    then have "\<forall>b\<in>set r. \<not> lineEndChar b" using assms(4) by simp
    from feed_comment_line[OF assms(1,3) this, of lineEndChar pre post] show ?thesis
      by (simp add: line_effect_def l)
  next
    case noc: False
    show ?thesis
    proof (cases "COLON \<in> set l")
      case True
      let ?n = "takeWhile (\<lambda>b. b \<noteq> COLON) l"
      let ?v = "tl (dropWhile (\<lambda>b. b \<noteq> COLON) l)"
      have l: "l = ?n @ COLON # ?v" by (rule split_at_colon[OF True])
      have n1: "?n \<noteq> []" using False noc by (cases l) auto
      have n2: "\<forall>b\<in>set ?n. \<not> notNameChar b"
        using assms(4) by (auto simp: notNameChar_def lineEndChar_def dest: set_takeWhileD)
      have v: "\<forall>b\<in>set ?v. \<not> lineEndChar b"
        using assms(4) l by (metis Un_iff list.set_intros(2) set_append)
      from feed_field_line[OF assms(1,2,3) n1 n2 v, of pre post] show ?thesis
        using l False noc True by (simp add: line_effect_def Let_def)
    next
      case nocolon: False
      have n2: "\<forall>b\<in>set l. \<not> notNameChar b"
        using assms(4) nocolon by (auto simp: notNameChar_def lineEndChar_def)
      from feed_name_line[OF assms(1,2,3) False n2, of lineEndChar pre post] show ?thesis
        using False noc nocolon by (simp add: line_effect_def)
    qed
  qed
qed


lemma blank_line_stateIterator:
  "blank_line (s\<lparr>stateIterator := it\<rparr>) = (blank_line s)\<lparr>stateIterator := it\<rparr>"
  by (simp add: blank_line_def Let_def yield_message_stateIterator)

lemma line_effect_stateIterator:
  "line_effect (s\<lparr>stateIterator := it\<rparr>) l = (line_effect s l)\<lparr>stateIterator := it\<rparr>"
  by (simp add: line_effect_def blank_line_stateIterator store_field_def Let_def)

lemma foldl_line_effect_stateIterator:
  "foldl line_effect (s\<lparr>stateIterator := it\<rparr>) ls = (foldl line_effect s ls)\<lparr>stateIterator := it\<rparr>"
  by (induction ls arbitrary: s) (simp_all add: line_effect_stateIterator)

lemma line_effect_decoder [simp]: "decoder (ctx (line_effect s l)) = decoder (ctx s)"
  by (simp add: line_effect_def Let_def)

definition join :: "byte list \<Rightarrow> byte list list \<Rightarrow> byte list" where
  "join t ls = concat (map (\<lambda>l. l @ t) ls)"

lemma join_simps [simp]: "join t [] = []" "join t (l # ls) = l @ t @ join t ls"
  by (simp_all add: join_def)

lemma feed_lines_LF:
  assumes "\<forall>l\<in>set ls. \<forall>b\<in>set l. \<not> lineEndChar b"
    "stateIterator s = Created fieldStart" "decoder (ctx s) = new_TextDecoder"
  shows "feed lineEndChar s (pre @ join [LF] ls) (length pre)
       = (foldl line_effect s ls)\<lparr>stateIterator := Created fieldStart\<rparr>"
  using assms
proof (induction ls arbitrary: s pre)
  case Nil
  then show ?case by (simp add: feed_done)
next
  case (Cons l ls)
  have le: "lineEndChar LF" by (simp add: lineEndChar_def)
  have l: "\<forall>b\<in>set l. \<not> lineEndChar b" using Cons.prems(1) by simp
  let ?s' = "(line_effect s l)\<lparr>stateIterator := Created fieldStart\<rparr>"
  have "feed lineEndChar s (pre @ join [LF] (l # ls)) (length pre)
      = feed lineEndChar ?s' ((pre @ l @ [LF]) @ join [LF] ls) (length (pre @ l @ [LF]))"
    using feed_line[OF Cons.prems(2,3) le l, of pre "join [LF] ls"]
    by (simp add: skipLFAfterCR_def)
  also have "\<dots> = (foldl line_effect ?s' ls)\<lparr>stateIterator := Created fieldStart\<rparr>"
    using Cons.prems by (intro Cons.IH) simp_all
  finally show ?case by (simp add: foldl_line_effect_stateIterator)
qed

lemma feed_skipLF_other:
  assumes "stateIterator s = Created (skipLF st)" "b \<noteq> LF"
  shows "feed vp s (pre @ b # post) (length pre)
       = feed vp (s\<lparr>stateIterator := Created st\<rparr>) (pre @ b # post) (length pre)"
  using assms by (simp add: feed_Created feed_skipLF)

lemma feed_skipLF_LF:
  assumes "stateIterator s = Created (skipLF st)"
  shows "feed vp s (pre @ LF # post) (length pre)
       = feed vp (s\<lparr>stateIterator := Created st\<rparr>) (pre @ LF # post) (length pre + 1)"
  using assms by (simp add: feed_Created feed_skipLF)

lemma stateIterator_same: "stateIterator s = it \<Longrightarrow> s\<lparr>stateIterator := it\<rparr> = s"
  by auto

lemma feed_lines_CR:
  assumes "\<forall>l\<in>set ls. \<forall>b\<in>set l. \<not> lineEndChar b"
    "stateIterator s = Created fieldStart \<or> stateIterator s = Created (skipLF fieldStart)"
    "decoder (ctx s) = new_TextDecoder"
  shows "feed lineEndChar s (pre @ join [CR] ls) (length pre)
       = (foldl line_effect s ls)\<lparr>stateIterator :=
            (if ls = [] then stateIterator s else Created (skipLF fieldStart))\<rparr>"
  using assms
proof (induction ls arbitrary: s pre)
  case Nil
  then show ?case by (simp add: feed_done)
next
  case (Cons l ls)
  have le: "lineEndChar CR" by (simp add: lineEndChar_def)
  have l: "\<forall>b\<in>set l. \<not> lineEndChar b" using Cons.prems(1) by simp
  let ?chunk = "pre @ l @ CR # join [CR] ls"
  let ?s0 = "s\<lparr>stateIterator := Created fieldStart\<rparr>"
  let ?s' = "(line_effect s l)\<lparr>stateIterator := Created (skipLF fieldStart)\<rparr>"
  obtain b post where bp: "l @ CR # join [CR] ls = b # post" "b \<noteq> LF"
    using l by (cases l) (auto simp: lineEndChar_def)
  have "feed lineEndChar s ?chunk (length pre) = feed lineEndChar ?s0 ?chunk (length pre)"
  proof (cases "stateIterator s = Created fieldStart")
    case True
    then show ?thesis by (simp add: stateIterator_same)
  next
    case False
    with Cons.prems(2) have "stateIterator s = Created (skipLF fieldStart)" by simp
    from feed_skipLF_other[OF this bp(2), of lineEndChar pre post] show ?thesis
      by (simp add: bp(1))
  qed
  also have "\<dots> = feed lineEndChar ?s' ((pre @ l @ [CR]) @ join [CR] ls) (length (pre @ l @ [CR]))"
    using feed_line[of ?s0 CR l pre "join [CR] ls"] Cons.prems(3) le l
    by (simp add: skipLFAfterCR_def line_effect_stateIterator)
  also have "\<dots> = (foldl line_effect ?s' ls)\<lparr>stateIterator :=
            (if ls = [] then stateIterator ?s' else Created (skipLF fieldStart))\<rparr>"
    using Cons.prems by (intro Cons.IH) simp_all
  finally show ?case by (simp add: foldl_line_effect_stateIterator)
qed

lemma feed_lines_CRLF:
  assumes "\<forall>l\<in>set ls. \<forall>b\<in>set l. \<not> lineEndChar b"
    "stateIterator s = Created fieldStart" "decoder (ctx s) = new_TextDecoder"
  shows "feed lineEndChar s (pre @ join [CR, LF] ls) (length pre)
       = (foldl line_effect s ls)\<lparr>stateIterator := Created fieldStart\<rparr>"
  using assms
proof (induction ls arbitrary: s pre)
  case Nil
  then show ?case by (simp add: feed_done)
next
  case (Cons l ls)
  have le: "lineEndChar CR" by (simp add: lineEndChar_def)
  have l: "\<forall>b\<in>set l. \<not> lineEndChar b" using Cons.prems(1) by simp
  let ?chunk = "pre @ l @ CR # LF # join [CR, LF] ls"
  let ?s1 = "(line_effect s l)\<lparr>stateIterator := Created (skipLF fieldStart)\<rparr>"
  let ?s' = "(line_effect s l)\<lparr>stateIterator := Created fieldStart\<rparr>"
  have "feed lineEndChar s ?chunk (length pre)
      = feed lineEndChar ?s1 ((pre @ l @ [CR]) @ LF # join [CR, LF] ls) (length (pre @ l @ [CR]))"
    using feed_line[OF Cons.prems(2,3) le l, of pre "LF # join [CR, LF] ls"]
    by (simp add: skipLFAfterCR_def)
  also have "\<dots> = feed lineEndChar ?s' ((pre @ l @ [CR, LF]) @ join [CR, LF] ls) (length (pre @ l @ [CR, LF]))"
    using feed_skipLF_LF[of ?s1 fieldStart lineEndChar "pre @ l @ [CR]" "join [CR, LF] ls"]
    by simp
  also have "\<dots> = (foldl line_effect ?s' ls)\<lparr>stateIterator := Created fieldStart\<rparr>"
    using Cons.prems by (intro Cons.IH) simp_all
  finally show ?case by (simp add: foldl_line_effect_stateIterator)
qed


text \<open>The session at the moment the first chunk is offered to a consumer that never
  closes: the locals of \<^verbatim>\<open>getMessages\<close> initialised and the byte source read once.\<close>

definition opened :: session where
  "opened = \<lparr>reader = \<lparr>pending = [], cancelled = False\<rparr>, clientClosed = False,
     finishedWith = None, heap = [[]], ctx = \<lparr>message = 0, decoder = new_TextDecoder\<rparr>,
     stateIterator = Created fieldStart, yielded = [], closeAfter = None\<rparr>"

lemma take_step_never_closing:
  assumes "closeAfter s = None"
  shows "closeAfter (fst (take_step s pos r)) = None
       \<and> clientClosed (fst (take_step s pos r)) = clientClosed s
       \<and> reader (fst (take_step s pos r)) = reader s"
  using assms
  by (simp add: take_step_def yield_message_def Let_def split: step.splits option.splits)

lemma feed_never_closing:
  assumes "closeAfter s = None"
  shows "clientClosed (feed vp s chunk pos) = clientClosed s \<and> reader (feed vp s chunk pos) = reader s"
proof -
  have "\<exists>p. \<not> p < length chunk \<and>
          (closeAfter (feed vp s chunk pos) = None
           \<and> clientClosed (feed vp s chunk pos) = clientClosed s
           \<and> reader (feed vp s chunk pos) = reader s)"
    by (rule feed_invariant[where Q = "\<lambda>s' p. closeAfter s' = None
           \<and> clientClosed s' = clientClosed s \<and> reader s' = reader s"])
       (use assms take_step_never_closing in auto)
  then show ?thesis by blast
qed

lemma run_single_chunk:
  assumes "c \<noteq> []"
  shows "fst (run vp None (chunks [c]))
       = (feed vp opened c 0)\<lparr>finishedWith := Some (ParseResult SERVER_CLOSED None)\<rparr>"
proof -
  have o: "closeAfter opened = None" "clientClosed opened = False"
    "reader opened = \<lparr>pending = [], cancelled = False\<rparr>"
    by (simp_all add: opened_def)
  have f: "clientClosed (feed vp opened c 0) = False"
    "reader (feed vp opened c 0) = \<lparr>pending = [], cancelled = False\<rparr>"
    using feed_never_closing[OF o(1), of vp c 0] o by simp_all
  have "readLoop vp (feed vp opened c 0) False = Inr (feed vp opened c 0)"
    using f by (simp add: readLoop_more readLoop_stop reader_read_def)
  then show ?thesis
    using assms f
    by (simp add: run_def getMessages_def new_session_def chunks_def readLoop_more
        reader_read_def opened_def[symmetric] Let_def)
qed

lemma run_empty_chunk: "messages (run vp None (chunks [[]])) = []"
  by (simp add: run_def getMessages_def new_session_def chunks_def readLoop_more readLoop_stop
      reader_read_def Let_def messages_def)

lemma messages_lines:
  assumes "\<forall>l\<in>set ls. \<forall>b\<in>set l. \<not> lineEndChar b" "t = [LF] \<or> t = [CR] \<or> t = [CR, LF]"
  shows "messages (run lineEndChar None (chunks [join t ls]))
       = map snd (yielded (foldl line_effect opened ls))"
proof (cases "ls = []")
  case True
  then show ?thesis by (simp add: run_empty_chunk opened_def)
next
  case False
  then have ne: "join t ls \<noteq> []" using assms(2) by (cases ls) auto
  have o: "stateIterator opened = Created fieldStart" "decoder (ctx opened) = new_TextDecoder"
    by (simp_all add: opened_def)
  have "yielded (feed lineEndChar opened (join t ls) 0) = yielded (foldl line_effect opened ls)"
    using assms(2) feed_lines_LF[OF assms(1) o, of "[]"] feed_lines_CR[OF assms(1) disjI1[OF o(1)] o(2), of "[]"]
      feed_lines_CRLF[OF assms(1) o, of "[]"]
    by auto
  then show ?thesis by (simp add: run_single_chunk[OF ne] messages_def)
qed

section \<open>Evaluating the decoder on literals\<close>


lemma takeWhile_name:
  "\<forall>b\<in>set n. b \<noteq> COLON \<Longrightarrow> takeWhile (\<lambda>b. b \<noteq> COLON) (n @ COLON # v) = n"
  by (simp add: takeWhile_append1 takeWhile_tail)

lemma dropWhile_name:
  "\<forall>b\<in>set n. b \<noteq> COLON \<Longrightarrow> dropWhile (\<lambda>b. b \<noteq> COLON) (n @ COLON # v) = COLON # v"
  by (simp add: dropWhile_append2)

section \<open>What the decoder gives for a run of bytes\<close>

text \<open>
  Two facts about the decoder. Decoding in streaming mode is the same however the bytes
  are cut into calls. And the decoder gives the empty string for no bytes and for the
  byte-order mark EF BB BF alone, and for nothing else: every byte yields a scalar value
  or leaves a sequence pending, a pending sequence yields U+FFFD at the flush, and U+FEFF
  is written by the three bytes EF BB BF only.
\<close>

lemma utf8_run_append:
  "utf8_run d (xs @ ys) =
     (fst (utf8_run (fst (utf8_run d xs)) ys), snd (utf8_run d xs) @ snd (utf8_run (fst (utf8_run d xs)) ys))"
  by (induction xs arbitrary: d) (auto split: prod.splits)

lemma serialize_text:
  "snd (serialize seen out) =
     (if seen then concat (map utf16 out)
      else case out of [] \<Rightarrow> [] | x # xs \<Rightarrow> (if x = 0xFEFF then [] else utf16 x) @ concat (map utf16 xs))"
  by (cases out) auto

lemma serialize_seen: "fst (serialize seen out) = (seen \<or> out \<noteq> [])"
  by (cases out) auto

lemma serialize_append:
  "snd (serialize seen (xs @ ys)) = snd (serialize seen xs) @ snd (serialize (fst (serialize seen xs)) ys)"
  by (cases xs; cases ys) (auto simp: serialize_text)

lemma utf16_nonempty [simp]: "utf16 cp \<noteq> []"
  by (simp add: utf16_def)

lemma handler_progress:
  "snd (utf8_handler d b) \<noteq> [] \<or> bytes_needed (fst (utf8_handler d b)) \<noteq> 0"
  by (auto simp: utf8_handler_def utf8_lead_def utf8_initial_def Let_def)

lemma run_progress:
  "bs \<noteq> [] \<Longrightarrow> snd (utf8_run d bs) \<noteq> [] \<or> bytes_needed (fst (utf8_run d bs)) \<noteq> 0"
proof (induction bs arbitrary: d)
  case Nil
  then show ?case by simp
next
  case (Cons b bs)
  show ?case
  proof (cases "bs = []")
    case True
    then show ?thesis using handler_progress[of d b] by (auto split: prod.splits)
  next
    case False
    from Cons.IH[OF False, of "fst (utf8_handler d b)"] show ?thesis
      by (auto split: prod.splits)
  qed
qed

lemma byte_eq_iff: "(b :: byte) = c \<longleftrightarrow> unat b = unat c"
  by (simp add: word_unat_eq_iff)

lemma mod_shift: "k * m \<le> x \<Longrightarrow> x < k * m + m \<Longrightarrow> x mod m = x - k * (m::nat)"
  by (metis add.commute le_add_diff_inverse mod_less mod_mult_self3 nat_add_left_cancel_less mult.commute)

lemma cp3_FEFF:
  assumes "(x1 mod 16 * 64 + x2 mod 64) * 64 + x3 mod 64 = (65279::nat)"
    "224 \<le> x1" "x1 \<le> 239" "128 \<le> x2" "x2 \<le> 191" "128 \<le> x3" "x3 \<le> 191"
  shows "x1 = 239 \<and> x2 = 187 \<and> x3 = 191"
proof -
  define a b c where "a = x1 - 224" and "b = x2 - 128" and "c = x3 - 128"
  have x: "x1 = 224 + a" "x2 = 128 + b" "x3 = 128 + c" "a \<le> 15" "b \<le> 63" "c \<le> 63"
    using assms by (simp_all add: a_def b_def c_def)
  have 1: "x1 mod 16 = a" using mod_shift[of 14 16 x1] assms by (simp add: a_def)
  have 2: "x2 mod 64 = b" using mod_shift[of 2 64 x2] assms by (simp add: b_def)
  have 3: "x3 mod 64 = c" using mod_shift[of 2 64 x3] assms by (simp add: c_def)
  have e: "4096 * a + 64 * b + c = 65279" using assms(1) unfolding 1 2 3 by simp
  have a: "a = 15" using e x(4,5,6) by linarith
  have b: "b = 59" using e x(5,6) unfolding a by linarith
  have c: "c = 63" using e unfolding a b by linarith
  show ?thesis using x a b c by simp
qed

lemma cp2_small: "(x1 mod 32) * 64 + x2 mod 64 < (2048::nat)"
proof -
  have "x1 mod 32 \<le> 31" "x2 mod 64 \<le> 63" by simp_all
  then show ?thesis by linarith
qed

lemma cp4_large:
  assumes "240 \<le> x1" "x1 \<le> 244" "(if x1 = 240 then 144 else 128) \<le> x2" "x2 \<le> 191"
  shows "65536 \<le> (((x1 mod 8) * 64 + x2 mod 64) * 64 + x3 mod 64) * 64 + (x4 mod 64 :: nat)"
proof -
  have 1: "x1 mod 8 = x1 - 240" using mod_shift[of 30 8 x1] assms by simp
  have 2: "x2 mod 64 = x2 - 128" using mod_shift[of 2 64 x2] assms by (simp split: if_splits)
  define y where "y = (x1 - 240) * 64 + (x2 - 128)"
  have "16 \<le> y" using assms by (auto simp: y_def split: if_splits)
  moreover have "(y * 64 + x3 mod 64) * 64 + x4 mod 64 = 4096 * y + 64 * (x3 mod 64) + x4 mod 64"
    by (simp add: algebra_simps)
  ultimately have "65536 \<le> (y * 64 + x3 mod 64) * 64 + x4 mod 64" by linarith
  then show ?thesis unfolding 1 2 y_def .
qed

lemma lead_cases:
  obtains (one) "utf8_lead b = (utf8_initial, [unat b])" "unat b \<le> 127"
  | (bad) "utf8_lead b = (utf8_initial, [0xFFFD])"
  | (two) "utf8_lead b = (Utf8 (unat b mod 32) 0 1 0x80 0xBF, [])"
  | (three) lo hi where "utf8_lead b = (Utf8 (unat b mod 16) 0 2 lo hi, [])"
      "224 \<le> unat b" "unat b \<le> 239" "128 \<le> unat lo" "unat hi \<le> 191"
  | (four) lo hi where "utf8_lead b = (Utf8 (unat b mod 8) 0 3 lo hi, [])"
      "240 \<le> unat b" "unat b \<le> 244" "(if unat b = 240 then 144 else 128) \<le> unat lo"
      "unat hi \<le> 191"
proof (cases "b \<le> 0x7F")
  case True
  then show ?thesis using one by (simp add: utf8_lead_def word_le_nat_alt)
next
  case n1: False
  show ?thesis
  proof (cases "0xC2 \<le> b \<and> b \<le> 0xDF")
    case True
    then show ?thesis using two n1 by (simp add: utf8_lead_def)
  next
    case n2: False
    show ?thesis
    proof (cases "0xE0 \<le> b \<and> b \<le> 0xEF")
      case True
      then show ?thesis using n1 n2
        by (intro three[of "if b = 0xE0 then 0xA0 else 0x80" "if b = 0xED then 0x9F else 0xBF"])
           (auto simp: utf8_lead_def word_le_nat_alt)
    next
      case n3: False
      show ?thesis
      proof (cases "0xF0 \<le> b \<and> b \<le> 0xF4")
        case True
        then show ?thesis using n1 n2 n3
          by (intro four[of "if b = 0xF0 then 0x90 else 0x80" "if b = 0xF4 then 0x8F else 0xBF"])
             (auto simp: utf8_lead_def word_le_nat_alt byte_eq_iff)
      next
        case False
        then show ?thesis using n1 n2 n3 bad by (simp add: utf8_lead_def)
      qed
    qed
  qed
qed

lemma cont_cases:
  assumes "n \<noteq> 0"
  obtains (err) out d' where "utf8_handler (Utf8 cp seen n lo hi) b = (d', 0xFFFD # out)"
  | (last) "utf8_handler (Utf8 cp seen n lo hi) b = (utf8_initial, [cp * 64 + unat b mod 64])"
      "seen + 1 = n" "unat lo \<le> unat b" "unat b \<le> unat hi"
  | (cont) "utf8_handler (Utf8 cp seen n lo hi) b
        = (Utf8 (cp * 64 + unat b mod 64) (seen + 1) n 0x80 0xBF, [])"
      "seen + 1 \<noteq> n" "unat lo \<le> unat b" "unat b \<le> unat hi"
proof (cases "b < lo \<or> hi < b")
  case True
  then show ?thesis using assms err
    by (auto simp: utf8_handler_def)
next
  case False
  then have r: "unat lo \<le> unat b" "unat b \<le> unat hi"
    by (auto simp: word_le_nat_alt word_less_nat_alt)
  show ?thesis
  proof (cases "seen + 1 = n")
    case True
    then show ?thesis using last False assms r by (auto simp: utf8_handler_def Let_def)
  next
    case f: False
    then show ?thesis using cont False assms r by (auto simp: utf8_handler_def Let_def)
  qed
qed

lemma utf8_run_Cons:
  "snd (utf8_run d (b # bs)) = snd (utf8_handler d b) @ snd (utf8_run (fst (utf8_handler d b)) bs)"
  "fst (utf8_run d (b # bs)) = fst (utf8_run (fst (utf8_handler d b)) bs)"
  by (auto split: prod.splits)

lemma handler_initial [simp]: "utf8_handler utf8_initial b = utf8_lead b"
  by (simp add: utf8_handler_def utf8_initial_def)

lemma run_step_silent:
  assumes "snd (utf8_run d (b # bs)) = out" "utf8_handler d b = (d', [])"
  shows "snd (utf8_run d' bs) = out"
  using assms by (auto split: prod.splits)

lemma run_step_fin:
  assumes "bytes_needed (fst (utf8_run d (b # bs))) = 0" "utf8_handler d b = (d', out)"
  shows "bytes_needed (fst (utf8_run d' bs)) = 0"
  using assms by (auto split: prod.splits)

lemma run_step_first:
  assumes "snd (utf8_run d (b # bs)) = [x]" "utf8_handler d b = (d', y # out)"
  shows "x = y \<and> out = [] \<and> snd (utf8_run d' bs) = []"
  using assms by (auto split: prod.splits)

lemma nz1: "(1::nat) \<noteq> 0" and nz2: "(2::nat) \<noteq> 0" and nz3: "(3::nat) \<noteq> 0"
  by simp_all

lemma BOM_only:
  assumes out: "snd (utf8_run utf8_initial bs) = [0xFEFF]"
    and fin: "bytes_needed (fst (utf8_run utf8_initial bs)) = 0"
  shows "bs = [0xEF, 0xBB, 0xBF]"
proof (cases bs)
  case Nil
  with out show ?thesis by simp
next
  case (Cons b1 r1)
  note o1 = out[unfolded Cons]
  note f1 = fin[unfolded Cons]
  show ?thesis
  proof (cases b1 rule: lead_cases)
    case one
    with run_step_first[OF o1, of utf8_initial "unat b1" "[]"] show ?thesis by simp
  next
    case bad
    with run_step_first[OF o1, of utf8_initial "0xFFFD" "[]"] show ?thesis by simp
  next
    case two
    let ?d1 = "Utf8 (unat b1 mod 32) 0 1 0x80 0xBF"
    have h1: "utf8_handler utf8_initial b1 = (?d1, [])" using two by simp
    note o2 = run_step_silent[OF o1 h1]
    show ?thesis
    proof (cases r1)
      case Nil
      with o2 show ?thesis by simp
    next
      case (Cons b2 r2)
      note o2' = o2[unfolded Cons]
      show ?thesis
      proof (cases rule: cont_cases[where n = 1 and cp = "unat b1 mod 32" and seen = 0
            and lo = "0x80" and hi = "0xBF" and b = b2, OF nz1, case_names err last cont])
        case (err out' d')
        from run_step_first[OF o2' err] show ?thesis by simp
      next
        case last
        from run_step_first[OF o2' last(1)] cp2_small[of "unat b1" "unat b2"] show ?thesis by simp
      next
        case cont
        then show ?thesis by simp
      qed
    qed
  next
    case (three lo hi)
    let ?d1 = "Utf8 (unat b1 mod 16) 0 2 lo hi"
    have h1: "utf8_handler utf8_initial b1 = (?d1, [])" using three by simp
    note o2 = run_step_silent[OF o1 h1]
    note f2 = run_step_fin[OF f1 h1]
    show ?thesis
    proof (cases r1)
      case Nil
      with o2 show ?thesis by simp
    next
      case r1: (Cons b2 r2)
      note o2' = o2[unfolded r1]
      note f2' = f2[unfolded r1]
      show ?thesis
      proof (cases rule: cont_cases[where n = 2 and cp = "unat b1 mod 16" and seen = 0
            and lo = lo and hi = hi and b = b2, OF nz2, case_names err last cont])
        case (err out' d')
        from run_step_first[OF o2' err] show ?thesis by simp
      next
        case last
        then show ?thesis by simp
      next
        case c2: cont
        note o3 = run_step_silent[OF o2' c2(1)]
        note f3 = run_step_fin[OF f2' c2(1)]
        show ?thesis
        proof (cases r2)
          case Nil
          with o3 show ?thesis by simp
        next
          case r2: (Cons b3 r3)
          note o3' = o3[unfolded r2]
          note f3' = f3[unfolded r2]
          show ?thesis
          proof (cases rule: cont_cases[where n = 2 and cp = "unat b1 mod 16 * 64 + unat b2 mod 64"
                and seen = "0 + 1" and lo = "0x80" and hi = "0xBF" and b = b3, OF nz2,
                case_names err last cont])
            case (err out' d')
            from run_step_first[OF o3' err] show ?thesis by simp
          next
            case l3: last
            from run_step_first[OF o3' l3(1)]
            have cp: "(unat b1 mod 16 * 64 + unat b2 mod 64) * 64 + unat b3 mod 64 = 65279"
              and rest: "snd (utf8_run utf8_initial r3) = []"
              by simp_all
            from run_step_fin[OF f3' l3(1)] have "bytes_needed (fst (utf8_run utf8_initial r3)) = 0" .
            with rest have r3: "r3 = []" using run_progress[of r3 utf8_initial] by auto
            have "unat b1 = 239 \<and> unat b2 = 187 \<and> unat b3 = 191"
              using cp three(2-5) c2(3,4) l3(3,4) by (intro cp3_FEFF) simp_all
            then have "b1 = 0xEF" "b2 = 0xBB" "b3 = 0xBF" by (simp_all add: byte_eq_iff)
            then show ?thesis using Cons r1 r2 r3 by simp
          next
            case cont
            then show ?thesis by simp
          qed
        qed
      qed
    qed
  next
    case (four lo hi)
    let ?d1 = "Utf8 (unat b1 mod 8) 0 3 lo hi"
    have h1: "utf8_handler utf8_initial b1 = (?d1, [])" using four by simp
    note o2 = run_step_silent[OF o1 h1]
    show ?thesis
    proof (cases r1)
      case Nil
      with o2 show ?thesis by simp
    next
      case r1: (Cons b2 r2)
      note o2' = o2[unfolded r1]
      show ?thesis
      proof (cases rule: cont_cases[where n = 3 and cp = "unat b1 mod 8" and seen = 0
            and lo = lo and hi = hi and b = b2, OF nz3, case_names err last cont])
        case (err out' d')
        from run_step_first[OF o2' err] show ?thesis by simp
      next
        case last
        then show ?thesis by simp
      next
        case c2: cont
        note o3 = run_step_silent[OF o2' c2(1)]
        show ?thesis
        proof (cases r2)
          case Nil
          with o3 show ?thesis by simp
        next
          case r2: (Cons b3 r3)
          note o3' = o3[unfolded r2]
          show ?thesis
          proof (cases rule: cont_cases[where n = 3 and cp = "unat b1 mod 8 * 64 + unat b2 mod 64"
                and seen = "0 + 1" and lo = "0x80" and hi = "0xBF" and b = b3, OF nz3,
                case_names err last cont])
            case (err out' d')
            from run_step_first[OF o3' err] show ?thesis by simp
          next
            case last
            then show ?thesis by simp
          next
            case c3: cont
            note o4 = run_step_silent[OF o3' c3(1)]
            show ?thesis
            proof (cases r3)
              case Nil
              with o4 show ?thesis by simp
            next
              case r3: (Cons b4 r4)
              note o4' = o4[unfolded r3]
              show ?thesis
              proof (cases rule: cont_cases[where n = 3
                    and cp = "(unat b1 mod 8 * 64 + unat b2 mod 64) * 64 + unat b3 mod 64"
                    and seen = "0 + 1 + 1" and lo = "0x80" and hi = "0xBF" and b = b4, OF nz3,
                    case_names err last cont])
                case (err out' d')
                from run_step_first[OF o4' err] show ?thesis by simp
              next
                case l4: last
                have "65536 \<le> ((unat b1 mod 8 * 64 + unat b2 mod 64) * 64 + unat b3 mod 64) * 64 + unat b4 mod 64"
                  using four(2-5) c2(3,4) by (intro cp4_large) (auto split: if_splits)
                with run_step_first[OF o4' l4(1)] show ?thesis by simp
              next
                case cont
                then show ?thesis by simp
              qed
            qed
          qed
        qed
      qed
    qed
  qed
qed

lemma decode_all_scalars:
  "decode_all bs = snd (serialize False
      (snd (utf8_run utf8_initial bs) @ utf8_end (fst (utf8_run utf8_initial bs))))"
  by (simp add: decode_all_def decode_stream_def decode_flush_def new_TextDecoder_def Let_def
      serialize_append)

lemma serialize_empty:
  "snd (serialize False out) = [] \<longleftrightarrow> out = [] \<or> out = [0xFEFF]"
  by (cases out) (auto simp: serialize_text)

lemma decode_all_BOM: "decode_all [0xEF, 0xBB, 0xBF] = []"
  by (simp add: decode_all_def decode_stream_def decode_flush_def new_TextDecoder_def
      utf8_initial_def utf8_lead_def utf8_handler_def utf8_end_def Let_def)

theorem decode_all_empty:
  "decode_all bs = [] \<longleftrightarrow> bs = [] \<or> bs = [0xEF, 0xBB, 0xBF]"
proof
  assume e: "decode_all bs = []"
  let ?out = "snd (utf8_run utf8_initial bs)"
  let ?d = "fst (utf8_run utf8_initial bs)"
  from e have "?out @ utf8_end ?d = [] \<or> ?out @ utf8_end ?d = [0xFEFF]"
    by (simp add: decode_all_scalars serialize_empty)
  then show "bs = [] \<or> bs = [0xEF, 0xBB, 0xBF]"
  proof
    assume "?out @ utf8_end ?d = []"
    then have "?out = []" "bytes_needed ?d = 0" by (auto simp: utf8_end_def split: if_splits)
    then show ?thesis using run_progress[of bs utf8_initial] by auto
  next
    assume a: "?out @ utf8_end ?d = [0xFEFF]"
    have "utf8_end ?d = []"
    proof (rule ccontr)
      assume "utf8_end ?d \<noteq> []"
      then have "utf8_end ?d = [0xFFFD]" by (simp add: utf8_end_def split: if_splits)
      with a show False by (cases ?out) auto
    qed
    then have "bytes_needed ?d = 0" "?out = [0xFEFF]"
      using a by (auto simp: utf8_end_def split: if_splits)
    then show ?thesis using BOM_only[of bs] by simp
  qed
next
  assume "bs = [] \<or> bs = [0xEF, 0xBB, 0xBF]"
  then show "decode_all bs = []"
  proof
    assume "bs = []"
    then show ?thesis
      by (simp add: decode_all_def decode_stream_def decode_flush_def new_TextDecoder_def
          utf8_initial_def utf8_end_def Let_def)
  next
    assume "bs = [0xEF, 0xBB, 0xBF]"
    then show ?thesis by (simp add: decode_all_BOM)
  qed
qed

lemma decode_stream_append:
  assumes "do_not_flush td"
  shows "decode_stream td (xs @ ys)
       = (fst (decode_stream (fst (decode_stream td xs)) ys),
          snd (decode_stream td xs) @ snd (decode_stream (fst (decode_stream td xs)) ys))"
  using assms
  by (simp add: decode_stream_def Let_def utf8_run_append serialize_append serialize_seen)

lemma decode_stream_fresh_append:
  "decode_stream new_TextDecoder (xs @ ys)
       = (fst (decode_stream (fst (decode_stream new_TextDecoder xs)) ys),
          snd (decode_stream new_TextDecoder xs)
            @ snd (decode_stream (fst (decode_stream new_TextDecoder xs)) ys))"
  by (simp add: decode_stream_def Let_def utf8_run_append serialize_append serialize_seen
      new_TextDecoder_def)


section \<open>Closing the session\<close>

text \<open>
  C8 as stated fails: two records arrive in one chunk, the consumer calls
  \<^verbatim>\<open>close()\<close> while it holds the first message, and the second message is still handed
  over. The inner loop of \<^verbatim>\<open>getMessages\<close> does not look at \<^verbatim>\<open>clientClosed\<close>; only the
  test of the outer loop does.
\<close>

theorem close_mid_chunk_counterexample:
  "messages (run lineEndChar (Some 1)
      (chunks [octets ''id: 1'' @ [LF, LF] @ octets ''id: 2'' @ [LF, LF], octets ''id: 3'' @ [LF, LF]]))
     = [[(ascii ''id'', ascii ''1'')], [(ascii ''id'', ascii ''2'')]]"
  by (simp add: run_eval)

text \<open>What the parsing of a chunk depends on, and all it changes besides the flags that
  \<^verbatim>\<open>close()\<close> sets: the store, the context, the iterator and the messages handed over.\<close>

definition parse_view :: "session \<Rightarrow> Message list \<times> ParserCtx \<times> iterator \<times> (ref \<times> Message) list" where
  "parse_view s = (heap s, ctx s, stateIterator s, yielded s)"

lemma parse_view_close [simp]: "parse_view (fst (close s)) = parse_view s"
  by (simp add: parse_view_def)

lemma take_step_parse_view:
  assumes "parse_view s = parse_view t"
  shows "parse_view (fst (take_step s p r)) = parse_view (fst (take_step t p r))
       \<and> snd (take_step s p r) = snd (take_step t p r)"
  using assms
  by (auto simp: parse_view_def take_step_def Let_def split: step.splits option.splits)

lemma feed_parse_view:
  "parse_view s = parse_view t \<Longrightarrow> parse_view (feed vp s c p) = parse_view (feed vp t c p)"
proof (induction vp s c p arbitrary: t rule: feed.induct)
  case (1 vp s chunk currentPos)
  show ?case
  proof (cases "currentPos < length chunk")
    case True
    have eq: "iterator_next vp (stateIterator t) (heap t) (ctx t) chunk currentPos
            = iterator_next vp (stateIterator s) (heap s) (ctx s) chunk currentPos"
      using "1.prems" by (simp add: parse_view_def)
    let ?r = "iterator_next vp (stateIterator s) (heap s) (ctx s) chunk currentPos"
    from take_step_parse_view[OF "1.prems", of currentPos ?r]
    have pv: "parse_view (fst (take_step s currentPos ?r)) = parse_view (fst (take_step t currentPos ?r))"
      and sn: "snd (take_step s currentPos ?r) = snd (take_step t currentPos ?r)" by simp_all
    from "1.IH"[OF True refl pv] show ?thesis
      by (simp add: feed_more[OF True] eq sn)
  next
    case False
    with "1.prems" show ?thesis by (simp add: feed_done)
  qed
qed


text \<open>An unfinished session whose consumer calls \<^verbatim>\<open>close()\<close> on receiving message
  number \<open>n\<close>.\<close>

definition closes_at :: "nat \<Rightarrow> session \<Rightarrow> bool" where
  "closes_at n s \<longleftrightarrow>
     closeAfter s = Some n \<and> finishedWith s = None \<and>
     clientClosed s = (n \<le> length (yielded s)) \<and> cancelled (reader s) = clientClosed s"

lemma take_step_closes_at:
  assumes "closes_at n s"
  shows "closes_at n (fst (take_step s p r))"
  using assms
  by (auto simp: closes_at_def take_step_def yield_message_def close_def reader_cancel_def Let_def
      split: step.splits option.splits)

lemma feed_closes_at:
  assumes "closes_at n s"
  shows "closes_at n (feed vp s c p)"
proof -
  have "\<exists>q. \<not> q < length c \<and> closes_at n (feed vp s c p)"
    by (rule feed_invariant[where Q = "\<lambda>s' q. closes_at n s'"])
       (use assms take_step_closes_at in auto)
  then show ?thesis by blast
qed

lemma take_step_yielded_grows:
  "length (yielded s) \<le> length (yielded (fst (take_step s p r)))"
  by (simp add: take_step_def Let_def split: step.splits option.splits)

lemma feed_yielded_grows: "length (yielded s) \<le> length (yielded (feed vp s c p))"
proof -
  have "\<exists>q. \<not> q < length c \<and> length (yielded s) \<le> length (yielded (feed vp s c p))"
    by (rule feed_invariant[where Q = "\<lambda>s' q. length (yielded s) \<le> length (yielded s')"])
       (use take_step_yielded_grows le_trans in blast)+
  then show ?thesis by blast
qed

lemma feed_closeAfter_None:
  assumes "closeAfter s = None"
  shows "closeAfter (feed vp s c p) = None"
proof -
  have "\<exists>q. \<not> q < length c \<and> closeAfter (feed vp s c p) = None"
    by (rule feed_invariant[where Q = "\<lambda>s' q. closeAfter s' = None"])
       (use assms take_step_never_closing in auto)
  then show ?thesis by blast
qed

text \<open>The body of the outer loop for one result of \<^verbatim>\<open>read()\<close>.\<close>

definition absorb :: "(byte \<Rightarrow> bool) \<Rightarrow> session \<Rightarrow> byte list option \<Rightarrow> session" where
  "absorb vp s v =
    (case v of
       None \<Rightarrow> s\<lparr>reader := snd (reader_read (reader s))\<rparr>
     | Some chunk \<Rightarrow>
         if 0 < length chunk
         then feed vp (s\<lparr>reader := snd (reader_read (reader s))\<rparr>) chunk 0
         else s\<lparr>reader := snd (reader_read (reader s))\<rparr>)"

text \<open>The session at the end of the outer loop, whether it ended or threw.\<close>

definition final :: "(nat \<times> session) + session \<Rightarrow> session" where
  "final r = (case r of Inl (e, s) \<Rightarrow> s | Inr s \<Rightarrow> s)"

lemma final_simps [simp]: "final (Inl (e, s)) = s" "final (Inr s) = s"
  by (simp_all add: final_def)

lemma readLoop_absorb:
  assumes "\<not> closed" "\<not> clientClosed s"
  shows "readLoop vp s closed =
     (case fst (reader_read (reader s)) of
        ReadRejects e \<Rightarrow> Inl (e, s\<lparr>reader := snd (reader_read (reader s))\<rparr>)
      | ReadResult v d \<Rightarrow> readLoop vp (absorb vp s v) d)"
  using assms by (simp add: readLoop_more absorb_def split: read_result.splits)

lemma absorb_parse_view:
  assumes "parse_view s = parse_view t"
  shows "parse_view (absorb vp s v) = parse_view (absorb vp t v)"
proof -
  have "parse_view (s\<lparr>reader := r1\<rparr>) = parse_view (t\<lparr>reader := r2\<rparr>)" for r1 r2
    using assms by (simp add: parse_view_def)
  then show ?thesis
    by (auto simp: absorb_def intro: feed_parse_view split: option.splits)
qed

lemma absorb_closes_at:
  assumes "closes_at n s"
  shows "closes_at n (absorb vp s v)"
proof -
  have "closes_at n (s\<lparr>reader := snd (reader_read (reader s))\<rparr>)"
    using assms by (auto simp: closes_at_def reader_read_def split: list.splits)
  then show ?thesis
    by (auto simp: absorb_def intro: feed_closes_at split: option.splits)
qed

lemma absorb_pending:
  "pending (reader (absorb vp s v)) = pending (snd (reader_read (reader s)))"
  by (simp add: absorb_def pending_feed split: option.splits)

lemma absorb_never_closing:
  assumes "closeAfter t = None"
  shows "closeAfter (absorb vp t v) = None \<and> clientClosed (absorb vp t v) = clientClosed t
       \<and> reader (absorb vp t v) = snd (reader_read (reader t))"
  using assms feed_never_closing[of "t\<lparr>reader := snd (reader_read (reader t))\<rparr>" vp]
    feed_closeAfter_None[of "t\<lparr>reader := snd (reader_read (reader t))\<rparr>" vp]
  by (auto simp: absorb_def split: option.splits)

lemma absorb_yielded_grows: "length (yielded s) \<le> length (yielded (absorb vp s v))"
  using feed_yielded_grows[of "s\<lparr>reader := snd (reader_read (reader s))\<rparr>" vp]
  by (auto simp: absorb_def split: option.splits)

lemma readLoop_yielded_grows:
  "length (yielded s) \<le> length (yielded (final (readLoop vp s closed)))"
proof -
  have "case readLoop vp s closed of
          Inl (e, s') \<Rightarrow> length (yielded s) \<le> length (yielded s')
        | Inr s' \<Rightarrow> length (yielded s) \<le> length (yielded s')"
    by (rule readLoop_invariant_aux[where P = "\<lambda>s'. length (yielded s) \<le> length (yielded s')"])
       (use feed_yielded_grows le_trans in \<open>auto, blast\<close>)
  then show ?thesis by (auto simp: final_def split: sum.splits)
qed


lemma readLoop_never_closing_cong:
  "parse_view t = parse_view t' \<Longrightarrow> closeAfter t = None \<Longrightarrow> closeAfter t' = None \<Longrightarrow>
   clientClosed t = clientClosed t' \<Longrightarrow> reader t = reader t' \<Longrightarrow>
   yielded (final (readLoop vp t cl)) = yielded (final (readLoop vp t' cl))"
proof (induction vp t cl arbitrary: t' rule: readLoop.induct)
  case (1 vp s closed)
  show ?case
  proof (cases "\<not> closed \<and> \<not> clientClosed s")
    case False
    then show ?thesis
      using "1.prems" by (auto simp: readLoop_stop parse_view_def)
  next
    case True
    then have go: "\<not> closed" "\<not> clientClosed s" "\<not> clientClosed t'"
      using "1.prems" by simp_all
    show ?thesis
    proof (cases "fst (reader_read (reader s))")
      case (ReadRejects e)
      then show ?thesis
        using go "1.prems" by (simp add: readLoop_absorb parse_view_def)
    next
      case (ReadResult v d)
      have body: "(case v of
                 None \<Rightarrow> s\<lparr>reader := snd (reader_read (reader s))\<rparr>
               | Some chunk \<Rightarrow>
                   if 0 < length chunk
                   then feed vp (s\<lparr>reader := snd (reader_read (reader s))\<rparr>) chunk 0
                   else s\<lparr>reader := snd (reader_read (reader s))\<rparr>) = absorb vp s v"
        by (simp add: absorb_def)
      have "yielded (final (readLoop vp (absorb vp s v) d))
          = yielded (final (readLoop vp (absorb vp t' v) d))"
        using "1.IH"[OF True ReadResult, of "absorb vp t' v", unfolded body]
          absorb_parse_view[OF "1.prems"(1), of vp v]
          absorb_never_closing[OF "1.prems"(2), of vp v] absorb_never_closing[OF "1.prems"(3), of vp v]
          "1.prems"(4,5)
        by simp
      then show ?thesis
        using go ReadResult "1.prems"(5) by (simp add: readLoop_absorb)
    qed
  qed
qed

lemma readLoop_drained:
  assumes "pending (reader t) = []" "closeAfter t = None"
  shows "yielded (final (readLoop vp t cl)) = yielded t"
proof (cases "cl \<or> clientClosed t")
  case True
  then show ?thesis by (simp add: readLoop_stop)
next
  case False
  then have go: "\<not> cl" "\<not> clientClosed t" by simp_all
  have "fst (reader_read (reader t)) = ReadResult None True"
    using assms(1) by (simp add: reader_read_def)
  then show ?thesis
    using go by (simp add: readLoop_absorb readLoop_stop absorb_def)
qed

lemma closes_at_open:
  assumes "closes_at n s" "length (yielded s) < n"
  shows "\<not> clientClosed s" "\<not> cancelled (reader s)" "closeAfter s = Some n"
  using assms by (auto simp: closes_at_def)

lemma closes_at_closed:
  assumes "closes_at n s" "n \<le> length (yielded s)"
  shows "clientClosed s"
  using assms by (auto simp: closes_at_def)

lemma yielded_parse_view: "parse_view t = parse_view s \<Longrightarrow> yielded t = yielded s"
  by (simp add: parse_view_def)

lemma first_read:
  assumes "closes_at n s" "length (yielded s) < n"
    and "parse_view t2 = parse_view s" "closeAfter t2 = None" "\<not> clientClosed t2"
      "reader t2 = \<lparr>pending = take (Suc k) (pending (reader s)), cancelled = False\<rparr>"
    and "n \<le> length (yielded (final (readLoop vp t2 False)))"
  obtains v d xs where "pending (reader s) = ReadResult v d # xs"
    "readLoop vp s False = readLoop vp (absorb vp s v) d"
    "readLoop vp t2 False = readLoop vp (absorb vp t2 v) d"
    "reader (absorb vp t2 v) = \<lparr>pending = take k xs, cancelled = False\<rparr>"
    "pending (reader (absorb vp s v)) = xs"
proof (cases "pending (reader s)")
  case Nil
  then have "pending (reader t2) = []" using assms(6) by simp
  from readLoop_drained[OF this assms(4), of vp False] assms(2,7) yielded_parse_view[OF assms(3)]
  show ?thesis by simp
next
  case (Cons x xs)
  note o = closes_at_open[OF assms(1,2)]
  have rs: "reader_read (reader s) = (x, (reader s)\<lparr>pending := xs\<rparr>)"
    using Cons o(2) by (simp add: reader_read_def)
  have rt: "reader_read (reader t2) = (x, \<lparr>pending = take k xs, cancelled = False\<rparr>)"
    using Cons assms(6) by (simp add: reader_read_def)
  show ?thesis
  proof (cases x)
    case (ReadRejects e)
    then have "readLoop vp t2 False = Inl (e, t2\<lparr>reader := \<lparr>pending = take k xs, cancelled = False\<rparr>\<rparr>)"
      using assms(5) rt by (simp add: readLoop_absorb)
    with assms(2,7) yielded_parse_view[OF assms(3)] show ?thesis by simp
  next
    case (ReadResult v d)
    show ?thesis
    proof (rule that[of v d xs])
      show "pending (reader s) = ReadResult v d # xs" using Cons ReadResult by simp
      show "readLoop vp s False = readLoop vp (absorb vp s v) d"
        using o(1) rs ReadResult by (simp add: readLoop_absorb)
      show "readLoop vp t2 False = readLoop vp (absorb vp t2 v) d"
        using assms(5) rt ReadResult by (simp add: readLoop_absorb)
      show "reader (absorb vp t2 v) = \<lparr>pending = take k xs, cancelled = False\<rparr>"
        using absorb_never_closing[OF assms(4), of vp v] rt by simp
      show "pending (reader (absorb vp s v)) = xs"
        using rs by (simp add: absorb_pending)
    qed
  qed
qed

text \<open>If the \<open>n\<close>-th message is completed inside chunk number \<open>k\<close>, the closing session
  parses like the session that never closes up to the end of this chunk, and leaves the
  outer loop there without another \<^verbatim>\<open>read()\<close>.\<close>

lemma close_stops_reading:
  assumes "closes_at n s" "length (yielded s) < n"
    and "parse_view t1 = parse_view s" "closeAfter t1 = None" "\<not> clientClosed t1"
      "reader t1 = \<lparr>pending = take k (pending (reader s)), cancelled = False\<rparr>"
    and "parse_view t2 = parse_view s" "closeAfter t2 = None" "\<not> clientClosed t2"
      "reader t2 = \<lparr>pending = take (Suc k) (pending (reader s)), cancelled = False\<rparr>"
    and "length (yielded (final (readLoop vp t1 False))) < n"
    and "n \<le> length (yielded (final (readLoop vp t2 False)))"
  shows "\<exists>s'. readLoop vp s False = Inr s' \<and> yielded s' = yielded (final (readLoop vp t2 False))
           \<and> clientClosed s' \<and> pending (reader s') = drop (Suc k) (pending (reader s))"
  using assms
proof (induction k arbitrary: s t1 t2)
  case 0
  from first_read[OF "0.prems"(1,2,7,8,9,10,12)] obtain v d xs
    where f: "pending (reader s) = ReadResult v d # xs"
      "readLoop vp s False = readLoop vp (absorb vp s v) d"
      "readLoop vp t2 False = readLoop vp (absorb vp t2 v) d"
      "reader (absorb vp t2 v) = \<lparr>pending = take 0 xs, cancelled = False\<rparr>"
      "pending (reader (absorb vp s v)) = xs"
    by blast
  let ?s' = "absorb vp s v" and ?t' = "absorb vp t2 v"
  have pv: "parse_view ?t' = parse_view ?s'" by (rule absorb_parse_view[OF "0.prems"(7)])
  have nc: "closeAfter ?t' = None" using absorb_never_closing[OF "0.prems"(8)] by simp
  have "pending (reader ?t') = []" using f(4) by simp
  from readLoop_drained[OF this nc, of vp d]
  have y: "yielded (final (readLoop vp t2 False)) = yielded ?s'"
    using f(3) yielded_parse_view[OF pv] by simp
  then have "n \<le> length (yielded ?s')" using "0.prems"(12) by simp
  then have "clientClosed ?s'"
    using closes_at_closed[OF absorb_closes_at[OF "0.prems"(1)]] by simp
  then have "readLoop vp s False = Inr ?s'" using f(2) by (simp add: readLoop_stop)
  then show ?case using y \<open>clientClosed ?s'\<close> f(1,5) by simp
next
  case (Suc k)
  from first_read[OF Suc.prems(1,2,7,8,9,10,12)] obtain v d xs
    where f: "pending (reader s) = ReadResult v d # xs"
      "readLoop vp s False = readLoop vp (absorb vp s v) d"
      "readLoop vp t2 False = readLoop vp (absorb vp t2 v) d"
      "reader (absorb vp t2 v) = \<lparr>pending = take (Suc k) xs, cancelled = False\<rparr>"
      "pending (reader (absorb vp s v)) = xs"
    by blast
  let ?s' = "absorb vp s v" and ?t1 = "absorb vp t1 v" and ?t2 = "absorb vp t2 v"
  have pv1: "parse_view ?t1 = parse_view ?s'" by (rule absorb_parse_view[OF Suc.prems(3)])
  have pv2: "parse_view ?t2 = parse_view ?s'" by (rule absorb_parse_view[OF Suc.prems(7)])
  have rt1: "reader_read (reader t1) = (ReadResult v d, \<lparr>pending = take k xs, cancelled = False\<rparr>)"
    using Suc.prems(6) f(1) by (simp add: reader_read_def)
  have l1: "readLoop vp t1 False = readLoop vp ?t1 d"
    using Suc.prems(5) rt1 by (simp add: readLoop_absorb)
  have nc1: "closeAfter ?t1 = None" "\<not> clientClosed ?t1"
    "reader ?t1 = \<lparr>pending = take k xs, cancelled = False\<rparr>"
    using absorb_never_closing[OF Suc.prems(4), of vp v] Suc.prems(5) rt1 by simp_all
  have nc2: "closeAfter ?t2 = None" "\<not> clientClosed ?t2"
    using absorb_never_closing[OF Suc.prems(8), of vp v] Suc.prems(9) by simp_all
  have small: "length (yielded ?s') < n"
  proof -
    have "length (yielded ?t1) \<le> length (yielded (final (readLoop vp ?t1 d)))"
      by (rule readLoop_yielded_grows)
    then show ?thesis using Suc.prems(11) l1 yielded_parse_view[OF pv1] by simp
  qed
  have ca: "closes_at n ?s'" by (rule absorb_closes_at[OF Suc.prems(1)])
  have d: "\<not> d"
  proof
    assume d
    then have "yielded (final (readLoop vp t2 False)) = yielded ?s'"
      using f(3) yielded_parse_view[OF pv2] by (simp add: readLoop_stop)
    with small Suc.prems(12) show False by simp
  qed
  have "\<exists>s''. readLoop vp ?s' False = Inr s'' \<and> yielded s'' = yielded (final (readLoop vp ?t2 False))
           \<and> clientClosed s'' \<and> pending (reader s'') = drop (Suc k) (pending (reader ?s'))"
    using Suc.IH[OF ca small pv1 nc1(1,2) _ pv2 nc2(1,2)] nc1(3) f(4,5) Suc.prems(11,12) l1 f(3) d
    by simp
  then show ?case using f(1,2,3,5) d by simp
qed


text \<open>The session as \<^verbatim>\<open>getMessages\<close> sets it up before its loop.\<close>

text \<open>The locals of \<^verbatim>\<open>getMessages\<close> initialised: a fresh message object, a fresh decoder
  and the iterator of \<^verbatim>\<open>fieldStart\<close>.\<close>

definition enter :: "session \<Rightarrow> session" where
  "enter s = s\<lparr>heap := heap s @ [[]],
               ctx := \<lparr>message = length (heap s), decoder = new_TextDecoder\<rparr>,
               stateIterator := Created fieldStart\<rparr>"

lemma getMessages_enter:
  assumes "finishedWith s = None"
  shows "getMessages vp s =
    (case readLoop vp (enter s) False of
       Inl (e, s1) \<Rightarrow> (s1\<lparr>finishedWith := Some (ParseResult THROWN (Some e))\<rparr>, Inl e)
     | Inr s1 \<Rightarrow>
         (let r = ParseResult (if clientClosed s1 then CLIENT_CLOSED else SERVER_CLOSED) None
          in (s1\<lparr>finishedWith := Some r\<rparr>, Inr r)))"
  using assms by (simp add: getMessages_def enter_def)

lemma messages_never_closing:
  "messages (run vp None rs)
     = map snd (yielded (final (readLoop vp (enter (new_session rs None)) False)))"
proof -
  have "finishedWith (new_session rs None) = None" by (simp add: new_session_def)
  from getMessages_enter[OF this, of vp] show ?thesis
    by (auto simp: run_def messages_def Let_def final_def split: sum.splits)
qed

text \<open>
  C8, amended: \<^verbatim>\<open>close()\<close> takes effect at the end of the chunk being parsed. Let the
  consumer call \<^verbatim>\<open>close()\<close> on receiving message number \<open>n\<close>, and let this message be
  completed inside the result number \<open>k\<close> of \<^verbatim>\<open>read()\<close> (counted from zero): the
  first \<open>k\<close> results give fewer than \<open>n\<close> messages, the first \<open>k + 1\<close> give at least \<open>n\<close>.
  Then the consumer is handed exactly the messages of the first \<open>k + 1\<close> results, the
  session finishes with \<^verbatim>\<open>CLIENT_CLOSED\<close>, and the results after number \<open>k\<close> are never
  read.
\<close>

theorem close_takes_effect_after_the_chunk:
  assumes "0 < n"
    and "length (messages (run vp None (take k rs))) < n"
    and "n \<le> length (messages (run vp None (take (Suc k) rs)))"
  shows "messages (run vp (Some n) rs) = messages (run vp None (take (Suc k) rs))
       \<and> snd (run vp (Some n) rs) = Inr (ParseResult CLIENT_CLOSED None)
       \<and> pending (reader (fst (run vp (Some n) rs))) = drop (Suc k) rs"
proof -
  let ?s = "enter (new_session rs (Some n))"
  let ?t1 = "enter (new_session (take k rs) None)"
  let ?t2 = "enter (new_session (take (Suc k) rs) None)"
  have s: "closes_at n ?s" "length (yielded ?s) < n" "pending (reader ?s) = rs"
    using assms(1) by (simp_all add: closes_at_def enter_def new_session_def)
  have t1: "parse_view ?t1 = parse_view ?s" "closeAfter ?t1 = None" "\<not> clientClosed ?t1"
    "reader ?t1 = \<lparr>pending = take k (pending (reader ?s)), cancelled = False\<rparr>"
    by (simp_all add: parse_view_def enter_def new_session_def)
  have t2: "parse_view ?t2 = parse_view ?s" "closeAfter ?t2 = None" "\<not> clientClosed ?t2"
    "reader ?t2 = \<lparr>pending = take (Suc k) (pending (reader ?s)), cancelled = False\<rparr>"
    by (simp_all add: parse_view_def enter_def new_session_def)
  have l1: "length (yielded (final (readLoop vp ?t1 False))) < n"
    using assms(2) by (simp add: messages_never_closing)
  have l2: "n \<le> length (yielded (final (readLoop vp ?t2 False)))"
    using assms(3) by (simp add: messages_never_closing)
  from close_stops_reading[OF s(1,2) t1 t2 l1 l2] obtain s'
    where s': "readLoop vp ?s False = Inr s'"
      "yielded s' = yielded (final (readLoop vp ?t2 False))"
      "clientClosed s'" "pending (reader s') = drop (Suc k) rs"
    using s(3) by auto
  have "finishedWith (new_session rs (Some n)) = None" by (simp add: new_session_def)
  from getMessages_enter[OF this, of vp]
  have "run vp (Some n) rs
      = (s'\<lparr>finishedWith := Some (ParseResult CLIENT_CLOSED None)\<rparr>, Inr (ParseResult CLIENT_CLOSED None))"
    using assms(1) s'(1,3) by (simp add: run_def Let_def)
  then show ?thesis
    using s'(2,4) by (simp add: messages_def messages_never_closing[unfolded messages_def])
qed

text \<open>The witness of C8: four chunks with one record each, closed on the second message;
  the third and fourth chunk stay unread.\<close>

theorem close_takes_effect_after_the_chunk_witness:
  "messages (run lineEndChar (Some 2)
      (chunks [octets ''id: 1'' @ [LF, LF], octets ''id: 2'' @ [LF, LF],
               octets ''id: 3'' @ [LF, LF], octets ''id: 4'' @ [LF, LF]]))
     = [[(ascii ''id'', ascii ''1'')], [(ascii ''id'', ascii ''2'')]]
   \<and> snd (run lineEndChar (Some 2)
      (chunks [octets ''id: 1'' @ [LF, LF], octets ''id: 2'' @ [LF, LF],
               octets ''id: 3'' @ [LF, LF], octets ''id: 4'' @ [LF, LF]]))
     = Inr (ParseResult CLIENT_CLOSED None)
   \<and> pending (reader (fst (run lineEndChar (Some 2)
      (chunks [octets ''id: 1'' @ [LF, LF], octets ''id: 2'' @ [LF, LF],
               octets ''id: 3'' @ [LF, LF], octets ''id: 4'' @ [LF, LF]]))))
     = chunks [octets ''id: 3'' @ [LF, LF], octets ''id: 4'' @ [LF, LF]]"
proof -
  let ?rs = "chunks [octets ''id: 1'' @ [LF, LF], octets ''id: 2'' @ [LF, LF],
               octets ''id: 3'' @ [LF, LF], octets ''id: 4'' @ [LF, LF]]"
  have 1: "messages (run lineEndChar None (take 1 ?rs)) = [[(ascii ''id'', ascii ''1'')]]"
    by (simp add: run_eval)
  have 2: "messages (run lineEndChar None (take (Suc 1) ?rs))
      = [[(ascii ''id'', ascii ''1'')], [(ascii ''id'', ascii ''2'')]]"
    by (simp add: run_eval)
  have 3: "drop (Suc 1) ?rs = chunks [octets ''id: 3'' @ [LF, LF], octets ''id: 4'' @ [LF, LF]]"
    by (simp add: chunks_def)
  show ?thesis
    using close_takes_effect_after_the_chunk[of 2 lineEndChar 1 ?rs]
    unfolding 1 2 3 by simp
qed


section \<open>Keys of a message\<close>

text \<open>
  C10 as stated fails: a line whose name bytes are the byte-order mark \<^verbatim>\<open>EF BB BF\<close> and
  nothing else. \<^verbatim>\<open>fieldName\<close> is entered with a name byte available, but the fresh
  \<^verbatim>\<open>TextDecoder\<close> drops a leading U+FEFF, so the field is stored under the empty name
  and the message is handed over with the key \<^verbatim>\<open>''\<close>.
\<close>

theorem empty_key_counterexample:
  "messages (run lineEndChar None (chunks [[0xEF, 0xBB, 0xBF] @ octets '':x'' @ [LF, LF]]))
     = [[([], ascii ''x'')]]"
  by (simp add: run_eval)

text \<open>The bytes of a source, in the order they are delivered.\<close>

definition stream_bytes :: "read_result list \<Rightarrow> byte list" where
  "stream_bytes rs =
     concat (map (\<lambda>r. case r of ReadResult (Some chunk) d \<Rightarrow> chunk | _ \<Rightarrow> []) rs)"

text \<open>A key that is the one-shot decoding of a non-empty run of consecutive bytes of the
  stream, none of them a colon, CR or LF.\<close>

definition key_ok :: "byte list \<Rightarrow> jstring \<Rightarrow> bool" where
  "key_ok str k \<longleftrightarrow>
     (\<exists>pre bs post. str = pre @ bs @ post \<and> bs \<noteq> [] \<and> (\<forall>b\<in>set bs. \<not> notNameChar b)
        \<and> k = decode_all bs)"

text \<open>The decoder and the buffer of \<^verbatim>\<open>collectUntilChar\<close> after the bytes \<open>bs\<close> have been
  decoded in streaming mode, in any number of pieces.\<close>

definition dec_ok :: "TextDecoder \<Rightarrow> jstring \<Rightarrow> byte list \<Rightarrow> bool" where
  "dec_ok d buf bs \<longleftrightarrow>
     (bs = [] \<and> d = new_TextDecoder \<and> buf = []) \<or> decode_stream new_TextDecoder bs = (d, buf)"

text \<open>
  The invariant of the state machine, relative to the bytes \<open>left\<close> of the stream that
  it has not been offered yet: \<^verbatim>\<open>fieldName\<close> is entered on a byte that is no colon, CR
  or LF; a name held by \<^verbatim>\<open>fieldValue\<close> is such a key; the bytes collected for a name so
  far are consecutive bytes of the stream that end where \<open>left\<close> begins; the decoder is
  fresh outside \<^verbatim>\<open>collectUntilChar\<close>.
\<close>

fun state_ok :: "byte list \<Rightarrow> byte list \<Rightarrow> ParserState \<Rightarrow> bool" where
  "state_ok str left fieldStart = True"
| "state_ok str left fieldName = (left \<noteq> [] \<and> \<not> notNameChar (hd left))"
| "state_ok str left (fieldValue n) = key_ok str n"
| "state_ok str left skipComment = True"
| "state_ok str left (skipLF st) = (st = fieldStart)"

fun iterator_ok :: "byte list \<Rightarrow> byte list \<Rightarrow> TextDecoder \<Rightarrow> iterator \<Rightarrow> bool" where
  "iterator_ok str left d (Created st) = (d = new_TextDecoder \<and> state_ok str left st)"
| "iterator_ok str left d (FirstYield st) = (d = new_TextDecoder \<and> state_ok str left st)"
| "iterator_ok str left d (MessageYield ch p0) = (d = new_TextDecoder)"
| "iterator_ok str left d (NameMore buf rem) =
     (\<exists>pre bs0. str = pre @ bs0 @ rem @ left \<and> rem \<noteq> []
        \<and> (\<forall>b\<in>set (bs0 @ rem). \<not> notNameChar b) \<and> dec_ok d buf bs0)"
| "iterator_ok str left d (ValueMore n buf rem) = key_ok str n"
| "iterator_ok str left d CommentMore = (d = new_TextDecoder)"

definition keys_ok :: "byte list \<Rightarrow> Message \<Rightarrow> bool" where
  "keys_ok str m \<longleftrightarrow> (\<forall>k\<in>fst ` set m. key_ok str k)"

definition names_ok :: "byte list \<Rightarrow> byte list \<Rightarrow> session \<Rightarrow> bool" where
  "names_ok str left s \<longleftrightarrow>
     message (ctx s) < length (heap s) \<and>
     (\<forall>m\<in>set (heap s). keys_ok str m) \<and>
     (\<forall>x\<in>set (yielded s). keys_ok str (snd x)) \<and>
     iterator_ok str left (decoder (ctx s)) (stateIterator s)"

text \<open>What the inner loop takes from a \<^verbatim>\<open>step\<close>: the iterator to go on with, the next
  position, and the message to hand over.\<close>

fun next_iterator :: "step \<Rightarrow> iterator" where
  "next_iterator (Returned st p) = Created st"
| "next_iterator (Yielded it m p) = it"

fun next_pos :: "nat \<Rightarrow> step \<Rightarrow> nat" where
  "next_pos pos (Returned st p) = p"
| "next_pos pos (Yielded it m None) = pos"
| "next_pos pos (Yielded it m (Some p)) = p"

fun handed :: "step \<Rightarrow> ref option" where
  "handed (Returned st p) = None"
| "handed (Yielded it m p) = m"

definition result_ok ::
  "byte list \<Rightarrow> byte list \<Rightarrow> byte list \<Rightarrow> nat \<Rightarrow> (Message list \<times> ParserCtx) \<times> step \<Rightarrow> bool" where
  "result_ok str chunk fut pos r \<longleftrightarrow>
     message (snd (fst r)) < length (fst (fst r)) \<and>
     (\<forall>m\<in>set (fst (fst r)). keys_ok str m) \<and>
     (\<forall>m. handed (snd r) = Some m \<longrightarrow> m < length (fst (fst r))) \<and>
     iterator_ok str (drop (next_pos pos (snd r)) chunk @ fut) (decoder (snd (fst r)))
       (next_iterator (snd r))"

lemma findIndex_None: "findIndex P xs = None \<Longrightarrow> \<forall>x\<in>set xs. \<not> P x"
  by (induction xs) (auto split: if_splits)

lemma findIndex_Some:
  "findIndex P xs = Some i \<Longrightarrow> i < length xs \<and> P (xs ! i) \<and> (\<forall>x\<in>set (take i xs). \<not> P x)"
proof (induction xs arbitrary: i)
  case (Cons x xs)
  then show ?case by (cases i) (auto split: if_splits)
qed simp

lemma dec_ok_add:
  assumes "dec_ok d buf bs" "rem \<noteq> []"
  shows "dec_ok (fst (decode_stream d rem)) (buf @ snd (decode_stream d rem)) (bs @ rem)"
proof (cases "bs = [] \<and> d = new_TextDecoder \<and> buf = []")
  case True
  then show ?thesis by (simp add: dec_ok_def)
next
  case False
  with assms(1) have "decode_stream new_TextDecoder bs = (d, buf)" by (auto simp: dec_ok_def)
  then show ?thesis
    unfolding dec_ok_def by (subst decode_stream_fresh_append) simp
qed

lemma dec_ok_finish:
  assumes "dec_ok d buf bs"
  shows "buf @ snd (decode_stream d ys) @ snd (decode_flush (fst (decode_stream d ys)))
       = decode_all (bs @ ys)"
proof (cases "bs = [] \<and> d = new_TextDecoder \<and> buf = []")
  case True
  then show ?thesis by (simp add: decode_all_def)
next
  case False
  with assms(1) have "decode_stream new_TextDecoder bs = (d, buf)" by (auto simp: dec_ok_def)
  then show ?thesis
    unfolding decode_all_def by (subst (1 2) decode_stream_fresh_append) simp
qed

lemma keys_obj_set: "fst ` set (obj_set m k v) \<subseteq> insert k (fst ` set m)"
  by (auto simp: obj_set_def dom_update)


lemma keys_ok_empty [simp]: "keys_ok str []"
  by (simp add: keys_ok_def)

lemma heap_store_ok:
  assumes "\<forall>m\<in>set h. keys_ok str m" "key_ok str k"
  shows "\<forall>m\<in>set (h[i := obj_set (h ! i) k v]). keys_ok str m"
proof (cases "i < length h")
  case True
  then have "keys_ok str (h ! i)" using assms(1) by simp
  then have "keys_ok str (obj_set (h ! i) k v)"
    using keys_obj_set[of "h ! i" k v] assms(2) unfolding keys_ok_def by blast
  then show ?thesis
    using assms(1) set_update_subset_insert[of h i "obj_set (h ! i) k v"] by auto
next
  case False
  then have "h[i := obj_set (h ! i) k v] = h" by (simp add: list_update_beyond)
  then show ?thesis using assms(1) by simp
qed

lemma take_step_pos: "snd (take_step s pos r) = next_pos pos (snd r)"
  by (cases "(pos, snd r)" rule: next_pos.cases) (auto simp: take_step_def Let_def)

lemma names_ok_take_step:
  assumes "names_ok str left s" "result_ok str chunk fut pos r"
  shows "names_ok str (drop (snd (take_step s pos r)) chunk @ fut) (fst (take_step s pos r))"
  using assms unfolding take_step_pos
  by (cases "snd r")
     (auto simp: names_ok_def result_ok_def take_step_def yield_message_def close_def Let_def
        split: option.splits)


lemma state_ok_skipLFAfterCR [simp]: "state_ok str left (skipLFAfterCR ch fieldStart)"
  by (simp add: skipLFAfterCR_def)

lemma name_collect_ok:
  assumes str: "str = pre @ bs @ drop pos chunk @ fut"
    and pos: "pos < length chunk"
    and bs: "\<forall>b\<in>set bs. \<not> notNameChar b"
    and ne: "bs \<noteq> [] \<or> \<not> notNameChar (chunk ! pos)"
    and dec: "dec_ok d buf bs"
    and h: "message c < length h" "\<forall>m\<in>set h. keys_ok str m"
  shows "result_ok str chunk fut pos
           (collect_result NameMore fieldName_end h c chunk
              (collectUntilChar notNameChar False d buf chunk pos))"
proof (cases "findIndex notNameChar (drop pos chunk)")
  case None
  then have r: "collectUntilChar notNameChar False d buf chunk pos = (d, More buf (drop pos chunk))"
    by (simp add: collectUntilChar_def)
  have "\<forall>b\<in>set (drop pos chunk). \<not> notNameChar b" using findIndex_None[OF None] .
  then have "\<exists>pre' bs0. str = pre' @ bs0 @ drop pos chunk @ fut \<and> drop pos chunk \<noteq> []
        \<and> (\<forall>b\<in>set (bs0 @ drop pos chunk). \<not> notNameChar b) \<and> dec_ok d buf bs0"
    using str pos bs dec by (intro exI[of _ pre] exI[of _ bs]) auto
  then show ?thesis
    unfolding r using h by (simp add: result_ok_def collect_result_def)
next
  case (Some i)
  let ?rem = "drop pos chunk"
  let ?name = "decode_all (bs @ take i ?rem)"
  from findIndex_Some[OF Some]
  have i: "i < length ?rem" "notNameChar (?rem ! i)" "\<forall>x\<in>set (take i ?rem). \<not> notNameChar x"
    by simp_all
  have r: "collectUntilChar notNameChar False d buf chunk pos
         = (new_TextDecoder, Ended (?rem ! i) ?name (pos + i + 1))"
    using dec_ok_finish[OF dec, of "take i ?rem"]
    by (simp add: collectUntilChar_def Some add_bytes_def Let_def)
  have "i \<noteq> 0" if "bs = []"
  proof
    assume "i = 0"
    with i(2) pos have "notNameChar (chunk ! pos)" by simp
    with ne that show False by simp
  qed
  then have ne': "bs @ take i ?rem \<noteq> []" using i(1) by (cases "bs = []") auto
  have "str = pre @ (bs @ take i ?rem) @ (drop i ?rem @ fut)"
    using str by (metis append.assoc append_take_drop_id)
  then have key: "key_ok str ?name"
    unfolding key_ok_def using ne' bs i(3) by (intro exI conjI) (assumption, auto)
  show ?thesis
    unfolding r using h key heap_store_ok[OF h(2) key, of "message c" "[]"]
    by (simp add: result_ok_def collect_result_def fieldName_end_def)
qed


lemma value_collect_ok:
  assumes key: "key_ok str n"
    and h: "message c < length h" "\<forall>m\<in>set h. keys_ok str m"
  shows "result_ok str chunk fut pos
           (collect_result (ValueMore n) (fieldValue_end n) h c chunk
              (collectUntilChar vp True d buf chunk pos))"
proof (cases "findIndex vp (drop pos chunk)")
  case None
  then show ?thesis
    using h key by (simp add: collectUntilChar_def result_ok_def collect_result_def)
next
  case (Some i)
  show ?thesis
    using h heap_store_ok[OF h(2) key, of "message c"]
    by (simp add: collectUntilChar_def Some result_ok_def collect_result_def fieldValue_end_def
        Let_def)
qed

lemma comment_scan_ok:
  assumes "message c < length h" "\<forall>m\<in>set h. keys_ok str m" "decoder c = new_TextDecoder"
  shows "result_ok str chunk fut pos ((h, c), skipComment_scan chunk pos)"
  using assms by (simp add: result_ok_def skipComment_scan_def Let_def split: option.splits)

lemma iterator_next_ok:
  assumes str: "str = past @ chunk @ fut"
    and pos: "pos < length chunk"
    and h: "message c < length h" "\<forall>m\<in>set h. keys_ok str m"
    and it: "iterator_ok str (drop pos chunk @ fut) (decoder c) it"
  shows "result_ok str chunk fut pos (iterator_next vp it h c chunk pos)"
proof (cases it)
  case (Created st)
  with h it show ?thesis by (simp add: result_ok_def)
next
  case (FirstYield st)
  show ?thesis
  proof (cases st)
    case fieldStart
    have "hd (drop pos chunk @ fut) = chunk ! pos"
      using pos by (simp add: hd_append hd_drop_conv_nth)
    with FirstYield fieldStart h it pos show ?thesis
      by (auto simp: result_ok_def at_def notNameChar_def)
  next
    case fieldName
    have s: "str = (past @ take pos chunk) @ [] @ drop pos chunk @ fut"
      using str by simp
    have "\<not> notNameChar (chunk ! pos)"
      using it FirstYield fieldName pos by (simp add: hd_append hd_drop_conv_nth)
    then show ?thesis
      using name_collect_ok[OF s pos _ _ _ h, of new_TextDecoder "[]"] it FirstYield fieldName
      by (simp add: dec_ok_def)
  next
    case (fieldValue n)
    with FirstYield it value_collect_ok[OF _ h] show ?thesis by simp
  next
    case skipComment
    with FirstYield it comment_scan_ok[OF h] show ?thesis by simp
  next
    case (skipLF st')
    with FirstYield h it show ?thesis by (simp add: result_ok_def)
  qed
next
  case (MessageYield ch p0)
  with h it show ?thesis by (auto simp: result_ok_def)
next
  case (NameMore buf rem)
  with it obtain pre bs0 where
    p: "str = pre @ bs0 @ rem @ drop pos chunk @ fut" "rem \<noteq> []"
       "\<forall>b\<in>set (bs0 @ rem). \<not> notNameChar b" "dec_ok (decoder c) buf bs0"
    by auto
  have s: "str = pre @ (bs0 @ rem) @ drop pos chunk @ fut" using p(1) by simp
  have ne: "bs0 @ rem \<noteq> [] \<or> \<not> notNameChar (chunk ! pos)" using p(2) by simp
  from name_collect_ok[OF s pos p(3) ne dec_ok_add[OF p(4,2)] h] NameMore show ?thesis
    by (simp add: add_bytes_def Let_def)
next
  case (ValueMore n buf rem)
  with it value_collect_ok[OF _ h] show ?thesis by (simp add: Let_def)
next
  case CommentMore
  with it comment_scan_ok[OF h] show ?thesis by simp
qed

lemma names_ok_step:
  assumes "str = past @ chunk @ fut" "pos < length chunk"
    and "names_ok str (drop pos chunk @ fut) s"
  shows "names_ok str
           (drop (snd (take_step s pos (iterator_next vp (stateIterator s) (heap s) (ctx s) chunk pos))) chunk @ fut)
           (fst (take_step s pos (iterator_next vp (stateIterator s) (heap s) (ctx s) chunk pos)))"
proof -
  have "result_ok str chunk fut pos (iterator_next vp (stateIterator s) (heap s) (ctx s) chunk pos)"
    using assms by (intro iterator_next_ok[of str past]) (auto simp: names_ok_def)
  from names_ok_take_step[OF assms(3) this] show ?thesis .
qed

lemma names_ok_feed:
  assumes "str = past @ chunk @ fut" "names_ok str (chunk @ fut) s"
  shows "names_ok str fut (feed vp s chunk 0)"
proof -
  have "\<exists>p. \<not> p < length chunk \<and> names_ok str (drop p chunk @ fut) (feed vp s chunk 0)"
    by (rule feed_invariant[where Q = "\<lambda>s p. names_ok str (drop p chunk @ fut) s"])
       (use assms names_ok_step in auto)
  then show ?thesis by auto
qed


definition stream_ok :: "byte list \<Rightarrow> session \<Rightarrow> bool" where
  "stream_ok str s \<longleftrightarrow>
     (\<exists>past. str = past @ stream_bytes (pending (reader s)))
     \<and> names_ok str (stream_bytes (pending (reader s))) s"

lemma names_ok_reader [simp]: "names_ok str left (s\<lparr>reader := r\<rparr>) = names_ok str left s"
  by (simp add: names_ok_def)

lemma names_ok_finishedWith [simp]:
  "names_ok str left (s\<lparr>finishedWith := r\<rparr>) = names_ok str left s"
  by (simp add: names_ok_def)

lemma reader_read_stream:
  "stream_bytes (pending r) =
     (case fst (reader_read r) of ReadResult (Some c) d \<Rightarrow> c | _ \<Rightarrow> [])
       @ stream_bytes (pending (snd (reader_read r)))"
  by (auto simp: reader_read_def stream_bytes_def split: list.splits read_result.splits option.splits)

lemma stream_ok_readLoop:
  "stream_ok str s \<Longrightarrow>
     (case readLoop vp s closed of Inl (e, s') \<Rightarrow> stream_ok str s' | Inr s' \<Rightarrow> stream_ok str s')"
proof (induction vp s closed rule: readLoop.induct)
  case (1 vp s closed)
  show ?case
  proof (cases "\<not> closed \<and> \<not> clientClosed s")
    case False
    then show ?thesis using "1.prems" by (subst readLoop.simps) auto
  next
    case True
    let ?s1 = "s\<lparr>reader := snd (reader_read (reader s))\<rparr>"
    from "1.prems" obtain past where
      past: "str = past @ stream_bytes (pending (reader s))"
      and ok: "names_ok str (stream_bytes (pending (reader s))) s"
      by (auto simp: stream_ok_def)
    show ?thesis
    proof (cases "fst (reader_read (reader s))")
      case (ReadRejects e)
      have "stream_ok str ?s1"
        using past ok reader_read_stream[of "reader s"] ReadRejects
        by (auto simp: stream_ok_def)
      with True ReadRejects show ?thesis by (subst readLoop.simps) simp
    next
      case (ReadResult v d)
      let ?s' = "(case v of
                 None \<Rightarrow> s\<lparr>reader := snd (reader_read (reader s))\<rparr>
               | Some chunk \<Rightarrow>
                   if 0 < length chunk
                   then feed vp (s\<lparr>reader := snd (reader_read (reader s))\<rparr>) chunk 0
                   else s\<lparr>reader := snd (reader_read (reader s))\<rparr>)"
      have "stream_ok str ?s'"
      proof (cases v)
        case None
        then show ?thesis
          using past ok reader_read_stream[of "reader s"] ReadResult
          by (auto simp: stream_ok_def)
      next
        case (Some chunk)
        let ?fut = "stream_bytes (pending (snd (reader_read (reader s))))"
        have eq: "stream_bytes (pending (reader s)) = chunk @ ?fut"
          using reader_read_stream[of "reader s"] ReadResult Some by simp
        show ?thesis
        proof (cases "0 < length chunk")
          case False
          then show ?thesis using Some past ok eq by (auto simp: stream_ok_def)
        next
          case nonempty: True
          have s: "str = past @ chunk @ ?fut" using past eq by simp
          have "names_ok str (chunk @ ?fut) ?s1" using ok eq by simp
          from names_ok_feed[OF s this, of vp]
          have "names_ok str ?fut (feed vp ?s1 chunk 0)" .
          moreover have "str = (past @ chunk) @ ?fut" using s by simp
          ultimately have "stream_ok str (feed vp ?s1 chunk 0)"
            unfolding stream_ok_def by (simp add: pending_feed)
          with Some nonempty show ?thesis by simp
        qed
      qed
      from "1.IH"[OF True ReadResult this] show ?thesis
        using True ReadResult by (subst readLoop.simps) simp
    qed
  qed
qed

lemma stream_ok_run: "stream_ok (stream_bytes rs) (fst (run vp consumer rs))"
proof -
  define s0 where "s0 = (if consumer = Some 0 then fst (close (new_session rs consumer))
       else new_session rs consumer)"
  have s0: "heap s0 = []" "yielded s0 = []" "finishedWith s0 = None" "pending (reader s0) = rs"
    by (auto simp: s0_def new_session_def close_def reader_cancel_def Let_def)
  let ?s1 = "s0\<lparr>heap := heap s0 @ [[]], ctx := \<lparr>message = length (heap s0), decoder = new_TextDecoder\<rparr>,
                 stateIterator := Created fieldStart\<rparr>"
  have "stream_ok (stream_bytes rs) ?s1"
    by (simp add: stream_ok_def names_ok_def s0)
  from stream_ok_readLoop[OF this, of vp False] show ?thesis
    unfolding run_def s0_def[symmetric] getMessages_def
    by (auto simp: s0 Let_def stream_ok_def split: sum.splits)
qed

text \<open>
  C10, amended: every key of every message handed to the consumer is the UTF-8 decoding
  of a non-empty run of consecutive bytes of the stream, none of them a colon, CR or
  LF, whatever the chunking, the consumer and the end of the stream are; the key is the
  empty string exactly when that run is the byte-order mark \<^verbatim>\<open>EF BB BF\<close>.
\<close>

theorem keys_decode_name_bytes:
  assumes "m \<in> set (messages (run vp consumer rs))" and "k \<in> fst ` set m"
  shows "\<exists>pre bs post. stream_bytes rs = pre @ bs @ post \<and> bs \<noteq> []
           \<and> (\<forall>b\<in>set bs. \<not> notNameChar b) \<and> k = decode_all bs
           \<and> (k = [] \<longleftrightarrow> bs = [0xEF, 0xBB, 0xBF])"
proof -
  from stream_ok_run[of rs vp consumer]
  have "\<forall>x\<in>set (yielded (fst (run vp consumer rs))). keys_ok (stream_bytes rs) (snd x)"
    by (simp add: stream_ok_def names_ok_def)
  with assms(1) have "keys_ok (stream_bytes rs) m" by (auto simp: messages_def)
  with assms(2) have "key_ok (stream_bytes rs) k" by (auto simp: keys_ok_def)
  then obtain pre bs post where
    b: "stream_bytes rs = pre @ bs @ post" "bs \<noteq> []" "\<forall>b\<in>set bs. \<not> notNameChar b"
       "k = decode_all bs"
    unfolding key_ok_def by blast
  have "k = [] \<longleftrightarrow> bs = [0xEF, 0xBB, 0xBF]"
    using b(2,4) decode_all_empty[of bs] by simp
  with b show ?thesis by blast
qed

text \<open>The witness of C10: the key \<^verbatim>\<open>id\<close> of the second record of a stream in two
  chunks.\<close>

theorem keys_decode_name_bytes_witness:
  "\<exists>pre bs post.
      stream_bytes (chunks [[0xEF, 0xBB, 0xBF] @ octets '':x'' @ [LF], [LF] @ octets ''id: 1'' @ [LF, LF]])
        = pre @ bs @ post \<and> bs \<noteq> []
      \<and> (\<forall>b\<in>set bs. \<not> notNameChar b) \<and> ascii ''id'' = decode_all bs
      \<and> (ascii ''id'' = [] \<longleftrightarrow> bs = [0xEF, 0xBB, 0xBF])"
proof (rule keys_decode_name_bytes)
  show "[(ascii ''id'', ascii ''1'')] \<in> set (messages (run lineEndChar None
      (chunks [[0xEF, 0xBB, 0xBF] @ octets '':x'' @ [LF], [LF] @ octets ''id: 1'' @ [LF, LF]])))"
    by (simp add: run_eval)
  show "ascii ''id'' \<in> fst ` set [(ascii ''id'', ascii ''1'')]" by simp
qed

section \<open>Every step of a session\<close>

text \<open>
  The states a session can be in while \<^verbatim>\<open>getMessages\<close> runs: the state in which the
  loop is entered, and every state that a \<^verbatim>\<open>read()\<close>, one \<^verbatim>\<open>stateIterator.next\<close>
  with what the inner loop does with its result, or the setting of \<^verbatim>\<open>finishedWith\<close>
  leads to. The chunk and the position of a step are left free, so the states of both
  loops on any byte source are among them.
\<close>

inductive reachable :: "(byte \<Rightarrow> bool) \<Rightarrow> session \<Rightarrow> bool" for vp where
  entered: "heap s = [] \<Longrightarrow> yielded s = [] \<Longrightarrow>
     reachable vp (s\<lparr>heap := heap s @ [[]],
                     ctx := \<lparr>message = length (heap s), decoder = new_TextDecoder\<rparr>,
                     stateIterator := Created fieldStart\<rparr>)"
| read: "reachable vp s \<Longrightarrow> reachable vp (s\<lparr>reader := r\<rparr>)"
| step: "reachable vp s \<Longrightarrow>
     reachable vp (fst (take_step s pos
        (iterator_next vp (stateIterator s) (heap s) (ctx s) chunk pos)))"
| finished: "reachable vp s \<Longrightarrow> reachable vp (s\<lparr>finishedWith := r\<rparr>)"

lemma reachable_store_ok: "reachable vp s \<Longrightarrow> store_ok s"
proof (induction rule: reachable.induct)
  case (entered s)
  then show ?case by (simp add: store_ok_def)
next
  case (read s r)
  then show ?case by (simp add: store_ok_def)
next
  case (step s pos chunk)
  then show ?case by (simp add: store_ok_take_step)
next
  case (finished s r)
  then show ?case by (simp add: store_ok_def)
qed

text \<open>The inner loop, and a whole session, stay inside these states.\<close>

lemma reachable_feed: "reachable vp s \<Longrightarrow> reachable vp (feed vp s chunk pos)"
  using feed_invariant[where Q = "\<lambda>s p. reachable vp s" and s = s and pos = pos and chunk = chunk and vp = vp]
    reachable.step[of vp] by blast

lemma reachable_run: "reachable vp (fst (run vp consumer rs))"
proof (rule run_invariant[where P = "reachable vp"])
  fix s :: session
  assume "heap s = []" "yielded s = []"
  from reachable.entered[OF this, of vp]
  show "reachable vp (s\<lparr>heap := heap s @ [[]],
      ctx := \<lparr>message = length (heap s), decoder = new_TextDecoder\<rparr>,
      stateIterator := Created fieldStart\<rparr>)" .
qed (auto intro: reachable.read reachable.finished reachable_feed)

text \<open>What one \<^verbatim>\<open>stateIterator.next\<close> does to the store.\<close>

lemma step_heap:
  assumes "message c < length h"
  shows "let r = iterator_next vp it h c chunk pos in
     (\<forall>i<length h. i \<noteq> message c \<longrightarrow> fst (fst r) ! i = h ! i)
   \<and> (is_MessageYield it \<longrightarrow> fst (fst r) = h @ [[]] \<and> message (snd (fst r)) = length h)
   \<and> (\<not> is_MessageYield it \<longrightarrow> message (snd (fst r)) = message c \<and> length (fst (fst r)) = length h)
   \<and> (\<forall>m. handed (snd r) = Some m \<longrightarrow> m = message c \<and> fst (fst r) = h \<and> is_MessageYield (next_iterator (snd r)))"
proof (cases it)
  case (FirstYield st)
  then show ?thesis
    by (cases st)
       (auto simp: collect_result_def collectUntilChar_def skipComment_scan_def
          fieldName_end_def fieldValue_end_def is_MessageYield_def Let_def nth_append
          split: if_splits option.splits)
qed (auto simp: collect_result_def collectUntilChar_def skipComment_scan_def
          fieldName_end_def fieldValue_end_def is_MessageYield_def Let_def nth_append
          split: if_splits option.splits)


text \<open>
  C9: a message handed to the consumer is never mutated afterwards, and the next record
  starts in a fresh empty object. For every step of the parser from every state a
  session can be in: each message handed over so far still holds the contents it was
  handed over with; no object of the store other than \<^verbatim>\<open>ctx.message\<close> is assigned to;
  \<^verbatim>\<open>ctx.message\<close> is a handed-over object only while \<^verbatim>\<open>fieldStart\<close> is suspended at
  the \<^verbatim>\<open>yield\<close> that handed it over, and the step taken from there assigns nothing: it
  adds a new empty object \<^verbatim>\<open>{}\<close> to the store and makes it \<^verbatim>\<open>ctx.message\<close>; every
  other step keeps \<^verbatim>\<open>ctx.message\<close> and the number of objects; and a step hands over at
  most \<^verbatim>\<open>ctx.message\<close> with its current contents, leaving the store as it is.
\<close>

theorem handed_over_messages_are_left_alone:
  assumes "reachable vp s"
    and "s' = fst (take_step s pos (iterator_next vp (stateIterator s) (heap s) (ctx s) chunk pos))"
  shows "(\<forall>x\<in>set (yielded s). heap s' ! fst x = snd x)
     \<and> (\<forall>i<length (heap s). i \<noteq> message (ctx s) \<longrightarrow> heap s' ! i = heap s ! i)
     \<and> (message (ctx s) \<in> fst ` set (yielded s) \<longrightarrow> is_MessageYield (stateIterator s))
     \<and> (is_MessageYield (stateIterator s) \<longrightarrow>
          heap s' = heap s @ [[]] \<and> message (ctx s') = length (heap s) \<and> yielded s' = yielded s)
     \<and> (\<not> is_MessageYield (stateIterator s) \<longrightarrow>
          message (ctx s') = message (ctx s) \<and> length (heap s') = length (heap s))
     \<and> (yielded s' = yielded s
          \<or> heap s' = heap s \<and> is_MessageYield (stateIterator s')
            \<and> yielded s' = yielded s @ [(message (ctx s), heap s ! message (ctx s))])"
proof -
  let ?r = "iterator_next vp (stateIterator s) (heap s) (ctx s) chunk pos"
  have ok: "store_ok s" using assms(1) by (rule reachable_store_ok)
  have m: "message (ctx s) < length (heap s)" using ok by (simp add: store_ok_def)
  have h: "heap s' = fst (fst ?r)" "ctx s' = snd (fst ?r)" "stateIterator s' = next_iterator (snd ?r)"
    "yielded s' = yielded s \<or> (\<exists>m. handed (snd ?r) = Some m
        \<and> yielded s' = yielded s @ [(m, fst (fst ?r) ! m)])"
    unfolding assms(2)
    by (cases "snd ?r"; auto simp: take_step_def Let_def split: option.splits)+
  note sh = step_heap[OF m, of vp "stateIterator s" chunk pos, unfolded Let_def]
  have 3: "message (ctx s) \<in> fst ` set (yielded s) \<longrightarrow> is_MessageYield (stateIterator s)"
    using ok by (auto simp: store_ok_def)
  have 2: "\<forall>i<length (heap s). i \<noteq> message (ctx s) \<longrightarrow> heap s' ! i = heap s ! i"
    using sh h(1) by simp
  have 4: "is_MessageYield (stateIterator s) \<longrightarrow>
          heap s' = heap s @ [[]] \<and> message (ctx s') = length (heap s) \<and> yielded s' = yielded s"
    using sh h by (auto simp: is_MessageYield_def split: iterator.splits)
  have 5: "\<not> is_MessageYield (stateIterator s) \<longrightarrow>
          message (ctx s') = message (ctx s) \<and> length (heap s') = length (heap s)"
    using sh h by simp
  have 6: "yielded s' = yielded s
          \<or> heap s' = heap s \<and> is_MessageYield (stateIterator s')
            \<and> yielded s' = yielded s @ [(message (ctx s), heap s ! message (ctx s))]"
    using sh h by auto
  have 1: "\<forall>x\<in>set (yielded s). heap s' ! fst x = snd x"
  proof
    fix x assume x: "x \<in> set (yielded s)"
    then have a: "fst x \<le> message (ctx s)" "heap s ! fst x = snd x"
      "fst x = message (ctx s) \<longrightarrow> is_MessageYield (stateIterator s)"
      using ok by (auto simp: store_ok_def)
    show "heap s' ! fst x = snd x"
    proof (cases "is_MessageYield (stateIterator s)")
      case True
      with 4 a m show ?thesis by (simp add: nth_append)
    next
      case False
      with a m 2 show ?thesis by auto
    qed
  qed
  from 1 2 3 4 5 6 show ?thesis by blast
qed


text \<open>The session right after \<^verbatim>\<open>{a: "1"}\<close> was handed over, with \<^verbatim>\<open>fieldStart\<close>
  suspended at its \<^verbatim>\<open>yield\<close>; it is reached by the chunk \<^verbatim>\<open>a:1\<close> LF and two steps on
  a chunk that begins with LF.\<close>

definition handing_over :: session where
  "handing_over =
     \<lparr>reader = \<lparr>pending = [], cancelled = False\<rparr>, clientClosed = False, finishedWith = None,
      heap = [[(ascii ''a'', ascii ''1'')]], ctx = \<lparr>message = 0, decoder = new_TextDecoder\<rparr>,
      stateIterator = MessageYield LF 0, yielded = [(0, [(ascii ''a'', ascii ''1'')])],
      closeAfter = None\<rparr>"

lemma reachable_handing_over: "reachable lineEndChar handing_over"
proof -
  let ?e = "(new_session [] None)\<lparr>heap := heap (new_session [] None) @ [[]],
              ctx := \<lparr>message = length (heap (new_session [] None)), decoder = new_TextDecoder\<rparr>,
              stateIterator := Created fieldStart\<rparr>"
  let ?s1 = "feed lineEndChar ?e (octets ''a:1'' @ [LF]) 0"
  let ?s2 = "fst (take_step ?s1 0
     (iterator_next lineEndChar (stateIterator ?s1) (heap ?s1) (ctx ?s1) [LF] 0))"
  let ?s3 = "fst (take_step ?s2 0
     (iterator_next lineEndChar (stateIterator ?s2) (heap ?s2) (ctx ?s2) [LF] 0))"
  have "reachable lineEndChar ?e"
    by (rule reachable.entered) (simp_all add: new_session_def)
  then have "reachable lineEndChar ?s1" by (rule reachable_feed)
  then have "reachable lineEndChar ?s2" by (rule reachable.step)
  then have "reachable lineEndChar ?s3" by (rule reachable.step)
  moreover have "?s3 = handing_over"
    by (simp add: run_eval handing_over_def)
  ultimately show ?thesis by simp
qed

text \<open>The witness of C9: the step taken from that state, on a chunk that goes on with the
  record \<^verbatim>\<open>b:2\<close>.\<close>

theorem handed_over_messages_are_left_alone_witness:
  "heap (fst (take_step handing_over 0
      (iterator_next lineEndChar (stateIterator handing_over) (heap handing_over)
         (ctx handing_over) (LF # octets ''b:2'') 0)))
     = [[(ascii ''a'', ascii ''1'')], []]
   \<and> message (ctx (fst (take_step handing_over 0
      (iterator_next lineEndChar (stateIterator handing_over) (heap handing_over)
         (ctx handing_over) (LF # octets ''b:2'') 0)))) = 1
   \<and> yielded (fst (take_step handing_over 0
      (iterator_next lineEndChar (stateIterator handing_over) (heap handing_over)
         (ctx handing_over) (LF # octets ''b:2'') 0)))
     = [(0, [(ascii ''a'', ascii ''1'')])]"
  using handed_over_messages_are_left_alone[OF reachable_handing_over refl, of 0 "LF # octets ''b:2''"]
  by (simp add: handing_over_def is_MessageYield_def)


section \<open>A stream cut into chunks\<close>

text \<open>
  The bytes of a stream as lines: the complete lines read so far, the bytes of the line
  that is not complete yet, and whether the last byte was a CR that ended a line (a LF
  that follows belongs to the same line ending). A line ends at LF, at CR, or at CR LF.
\<close>

type_synonym split = "byte list list \<times> byte list \<times> bool"

definition split_byte :: "split \<Rightarrow> byte \<Rightarrow> split" where
  "split_byte a b =
     (case a of (ls, t, cr) \<Rightarrow>
        if b = LF then (if cr then (ls, [], False) else (ls @ [t], [], False))
        else if b = CR then (ls @ [t], [], True)
        else (ls, t @ [b], False))"

definition split_lines :: "byte list \<Rightarrow> split" where
  "split_lines bs = foldl split_byte ([], [], False) bs"

definition complete_lines :: "byte list \<Rightarrow> byte list list" where
  "complete_lines bs = fst (split_lines bs)"


lemma split_free:
  "\<forall>b\<in>set w. \<not> lineEndChar b \<Longrightarrow> w \<noteq> [] \<Longrightarrow>
     foldl split_byte (ls, t, cr) w = (ls, t @ w, False)"
proof (induction w arbitrary: t cr)
  case Nil
  then show ?case by simp
next
  case (Cons b w)
  have b: "split_byte (ls, t, cr) b = (ls, t @ [b], False)"
    using Cons.prems(1) by (simp add: split_byte_def lineEndChar_def)
  show ?case
  proof (cases "w = []")
    case True
    then show ?thesis using b by simp
  next
    case False
    then show ?thesis using Cons.IH[of "t @ [b]" False] Cons.prems(1) b by simp
  qed
qed

lemma split_free':
  "\<forall>b\<in>set w. \<not> lineEndChar b \<Longrightarrow>
     foldl split_byte (ls, t, False) w = (ls, t @ w, False)"
  by (cases "w = []") (simp_all add: split_free)

lemma split_end:
  "lineEndChar c \<Longrightarrow> \<not> (cr \<and> c = LF) \<Longrightarrow> split_byte (ls, t, cr) c = (ls @ [t], [], c = CR)"
  by (auto simp: split_byte_def lineEndChar_def)

lemma split_CRLF: "split_byte (ls, t, True) LF = (ls, [], False)"
  by (simp add: split_byte_def)

lemma findIndex_none: "\<forall>x\<in>set xs. \<not> P x \<Longrightarrow> findIndex P xs = None"
  by (induction xs) auto

text \<open>
  The decoder and the buffer of \<^verbatim>\<open>collectUntilChar\<close>, called for a value, after the
  bytes \<open>v0\<close> of the value have been added in any number of pieces with one leading
  space stripped and no more.
\<close>

definition val_ok :: "TextDecoder \<Rightarrow> jstring \<Rightarrow> byte list \<Rightarrow> bool" where
  "val_ok d buf v0 \<longleftrightarrow>
     (v0 = [] \<and> d = new_TextDecoder \<and> buf = [])
     \<or> (v0 \<noteq> [] \<and> decode_stream new_TextDecoder (strip_space v0) = (d, buf))"

lemma strip_space_append: "v0 \<noteq> [] \<Longrightarrow> strip_space (v0 @ w) = strip_space v0 @ w"
  by (cases v0) (auto simp: strip_space_def at_def)

lemma add_bytes_plain:
  assumes "buf \<noteq> [] \<or> w = [] \<or> hd w \<noteq> SPACE"
  shows "add_bytes True d buf w = (fst (decode_stream d w), buf @ snd (decode_stream d w))"
  using assms by (cases w) (auto simp: add_bytes_def at_def Let_def)

lemma add_bytes_first:
  "add_bytes True d [] w
     = (fst (decode_stream d (strip_space w)), snd (decode_stream d (strip_space w)))"
  by (simp add: add_bytes_def strip_space_def Let_def)

lemma val_ok_add:
  assumes "val_ok d buf v0" "rem \<noteq> []" "v0 \<noteq> [] \<and> buf = [] \<longrightarrow> hd rem \<noteq> SPACE"
  shows "val_ok (fst (add_bytes True d buf rem)) (snd (add_bytes True d buf rem)) (v0 @ rem)"
proof (cases "v0 = []")
  case True
  with assms(1) have "d = new_TextDecoder" "buf = []" by (auto simp: val_ok_def)
  then show ?thesis using True assms(2) by (simp add: add_bytes_first val_ok_def)
next
  case False
  with assms(1) have d: "decode_stream new_TextDecoder (strip_space v0) = (d, buf)"
    by (auto simp: val_ok_def)
  have "buf \<noteq> [] \<or> rem = [] \<or> hd rem \<noteq> SPACE" using assms(3) False by auto
  from add_bytes_plain[OF this] show ?thesis
    using False d unfolding val_ok_def
    by (simp add: strip_space_append decode_stream_fresh_append[of "strip_space v0" rem])
qed

lemma val_ok_finish:
  assumes "val_ok d buf v0" "v0 \<noteq> [] \<and> buf = [] \<and> w \<noteq> [] \<longrightarrow> hd w \<noteq> SPACE"
  shows "snd (add_bytes True d buf w) @ snd (decode_flush (fst (add_bytes True d buf w)))
       = decode_all (strip_space (v0 @ w))"
proof (cases "v0 = []")
  case True
  with assms(1) have "d = new_TextDecoder" "buf = []" by (auto simp: val_ok_def)
  then show ?thesis using True by (simp add: add_bytes_first decode_all_def)
next
  case False
  with assms(1) have d: "decode_stream new_TextDecoder (strip_space v0) = (d, buf)"
    by (auto simp: val_ok_def)
  have "buf \<noteq> [] \<or> w = [] \<or> hd w \<noteq> SPACE" using assms(2) False by auto
  from add_bytes_plain[OF this] show ?thesis
    using False d unfolding decode_all_def
    by (simp add: strip_space_append decode_stream_fresh_append[of "strip_space v0" w])
qed


text \<open>A chunk that ends inside a name, a value or a comment, and a chunk that goes on
  with one.\<close>

lemma feed_name_partial:
  assumes "stateIterator s = FirstYield fieldName" "r \<noteq> []" "\<forall>b\<in>set r. \<not> notNameChar b"
  shows "feed vp s (pre @ r) (length pre) = s\<lparr>stateIterator := NameMore [] r\<rparr>"
  using assms
  by (simp add: feed_more feed_done take_step_def collect_result_def collectUntilChar_def
      findIndex_none)

lemma feed_NameMore_cont:
  assumes "stateIterator s = NameMore buf rem" "c \<noteq> []" "\<forall>b\<in>set c. \<not> notNameChar b"
  shows "feed vp s c 0
       = s\<lparr>ctx := (ctx s)\<lparr>decoder := fst (decode_stream (decoder (ctx s)) rem)\<rparr>,
            stateIterator := NameMore (buf @ snd (decode_stream (decoder (ctx s)) rem)) c\<rparr>"
  using assms
  by (simp add: feed_more feed_done take_step_def collect_result_def collectUntilChar_def
      findIndex_none add_bytes_def Let_def)

lemma feed_NameMore_found:
  assumes "stateIterator s = NameMore buf rem" "dec_ok (decoder (ctx s)) buf bs0" "rem \<noteq> []"
    "\<forall>x\<in>set w. \<not> notNameChar x" "notNameChar b"
  shows "feed vp s (w @ b # post) 0
       = feed vp
           (if b = COLON
            then s\<lparr>ctx := (ctx s)\<lparr>decoder := new_TextDecoder\<rparr>,
                   stateIterator := Created (fieldValue (decode_all (bs0 @ rem @ w)))\<rparr>
            else (store_field s (decode_all (bs0 @ rem @ w)) [])
                   \<lparr>ctx := (ctx s)\<lparr>decoder := new_TextDecoder\<rparr>,
                     stateIterator := Created (skipLFAfterCR b fieldStart)\<rparr>)
           (w @ b # post) (length w + 1)"
proof -
  let ?d = "fst (decode_stream (decoder (ctx s)) rem)"
  let ?buf = "buf @ snd (decode_stream (decoder (ctx s)) rem)"
  have ok: "dec_ok ?d ?buf (bs0 @ rem)" using dec_ok_add[OF assms(2,3)] .
  have c: "collectUntilChar notNameChar False ?d ?buf (w @ b # post) 0
      = (new_TextDecoder, Ended b (decode_all (bs0 @ rem @ w)) (length w + 1))"
    using dec_ok_finish[OF ok, of w] assms(4,5)
    by (simp add: collectUntilChar_def findIndex_first add_bytes_def Let_def nth_append)
  show ?thesis
    using assms(1,5)
    by (auto simp add: feed_more take_step_def add_bytes_def Let_def c collect_result_def
        fieldName_end_def store_field_def notNameChar_def)
qed

lemma feed_value_partial:
  assumes "stateIterator s = FirstYield (fieldValue n)" "r \<noteq> []" "\<forall>b\<in>set r. \<not> vp b"
  shows "feed vp s (pre @ r) (length pre) = s\<lparr>stateIterator := ValueMore n [] r\<rparr>"
  using assms
  by (simp add: feed_more feed_done take_step_def collect_result_def collectUntilChar_def
      findIndex_none)

lemma feed_ValueMore_cont:
  assumes "stateIterator s = ValueMore n buf rem" "c \<noteq> []" "\<forall>b\<in>set c. \<not> vp b"
  shows "feed vp s c 0
       = s\<lparr>ctx := (ctx s)\<lparr>decoder := fst (add_bytes True (decoder (ctx s)) buf rem)\<rparr>,
            stateIterator := ValueMore n (snd (add_bytes True (decoder (ctx s)) buf rem)) c\<rparr>"
  using assms
  by (simp add: feed_more feed_done take_step_def collect_result_def collectUntilChar_def
      findIndex_none Let_def)

lemma feed_ValueMore_found:
  assumes "stateIterator s = ValueMore n buf rem" "val_ok (decoder (ctx s)) buf v0" "rem \<noteq> []"
    "v0 \<noteq> [] \<and> buf = [] \<longrightarrow> hd rem \<noteq> SPACE"
    "\<forall>x\<in>set w. \<not> lineEndChar x" "lineEndChar c"
    "snd (decode_stream new_TextDecoder (strip_space (v0 @ rem))) = [] \<and> w \<noteq> [] \<longrightarrow> hd w \<noteq> SPACE"
  shows "feed lineEndChar s (w @ c # post) 0
       = feed lineEndChar
           ((store_field s n (field_value (heap s ! message (ctx s)) n
                                (decode_all (strip_space (v0 @ rem @ w)))))
              \<lparr>ctx := (ctx s)\<lparr>decoder := new_TextDecoder\<rparr>,
                stateIterator := Created (skipLFAfterCR c fieldStart)\<rparr>)
           (w @ c # post) (length w + 1)"
proof -
  let ?a = "add_bytes True (decoder (ctx s)) buf rem"
  have ok: "val_ok (fst ?a) (snd ?a) (v0 @ rem)" using val_ok_add[OF assms(2,3,4)] .
  then have "decode_stream new_TextDecoder (strip_space (v0 @ rem)) = (fst ?a, snd ?a)"
    using assms(3) by (simp add: val_ok_def)
  then have "(v0 @ rem) \<noteq> [] \<and> snd ?a = [] \<and> w \<noteq> [] \<longrightarrow> hd w \<noteq> SPACE"
    using assms(7) by simp
  from val_ok_finish[OF ok this]
  have c: "collectUntilChar lineEndChar True (fst ?a) (snd ?a) (w @ c # post) 0
      = (new_TextDecoder, Ended c (decode_all (strip_space (v0 @ rem @ w))) (length w + 1))"
    using assms(5,6)
    by (simp add: collectUntilChar_def findIndex_first Let_def nth_append)
  show ?thesis
    using assms(1)
    by (simp add: feed_more take_step_def Let_def c collect_result_def
        fieldValue_end_def store_field_def field_value_def)
qed

lemma feed_comment_partial:
  assumes "stateIterator s = FirstYield skipComment \<or> stateIterator s = CommentMore"
    "r \<noteq> []" "\<forall>b\<in>set r. \<not> lineEndChar b"
  shows "feed vp s (pre @ r) (length pre) = s\<lparr>stateIterator := CommentMore\<rparr>"
  using assms
  by (auto simp add: feed_more feed_done take_step_def skipComment_scan_def findIndex_none)

lemma feed_comment_found:
  assumes "stateIterator s = Created skipComment \<or> stateIterator s = CommentMore"
    "\<forall>b\<in>set w. \<not> lineEndChar b" "lineEndChar c"
  shows "feed vp s (w @ c # post) 0
       = feed vp ((blank_line s)\<lparr>stateIterator := Created (skipLFAfterCR c fieldStart)\<rparr>)
           (w @ c # post) (length w + 1)"
proof -
  have "feed vp s (w @ c # post) 0
      = feed vp (s\<lparr>stateIterator := Created (skipLFAfterCR c fieldStart)\<rparr>) (w @ c # post) (length w)"
    using assms(1)
  proof
    assume a: "stateIterator s = Created skipComment"
    then have "feed vp s (w @ c # post) 0
        = feed vp (s\<lparr>stateIterator := FirstYield skipComment\<rparr>) (w @ c # post) 0"
      by (simp add: feed_Created)
    also have "\<dots> = feed vp (s\<lparr>stateIterator := Created (skipLFAfterCR c fieldStart)\<rparr>)
        (w @ c # post) (length w)"
      using feed_skipComment[of "s\<lparr>stateIterator := FirstYield skipComment\<rparr>" w c vp "[]" post]
        assms(2,3) by simp
    finally show ?thesis .
  next
    assume "stateIterator s = CommentMore"
    then show ?thesis
      using assms(2,3)
      by (simp add: feed_more take_step_def skipComment_scan_def findIndex_first nth_append)
  qed
  also have "\<dots> = feed vp
      ((blank_line (s\<lparr>stateIterator := Created (skipLFAfterCR c fieldStart)\<rparr>))
         \<lparr>stateIterator := Created (skipLFAfterCR c fieldStart)\<rparr>) (w @ c # post) (length w + 1)"
    using assms(3) by (intro feed_after_comment) simp_all
  finally show ?thesis by (simp add: blank_line_stateIterator)
qed


text \<open>
  A session \<open>s\<close> stands for the lines \<open>ls\<close>, the incomplete line \<open>t\<close> and the flag
  \<open>cr\<close> when its store, its message in progress and the messages it has handed over are
  those that the lines give one after the other (\<open>line_effect\<close>), and its iterator and
  decoder hold the bytes of \<open>t\<close>: \<^verbatim>\<open>fieldStart\<close> or the generator of \<^verbatim>\<open>skipLFAfterCR\<close>
  for no bytes, \<^verbatim>\<open>skipComment\<close> after a colon, \<^verbatim>\<open>collectUntilChar\<close> suspended inside
  a name or a value with the bytes decoded so far in its buffer and the rest not decoded
  yet, \<^verbatim>\<open>fieldValue(name)\<close> not yet started right after the colon.
\<close>

definition same_store :: "session \<Rightarrow> session \<Rightarrow> bool" where
  "same_store s a \<longleftrightarrow>
     heap s = heap a \<and> message (ctx s) = message (ctx a) \<and> yielded s = yielded a"

definition pending_ok :: "byte list \<Rightarrow> bool \<Rightarrow> TextDecoder \<Rightarrow> iterator \<Rightarrow> bool" where
  "pending_ok t cr d it \<longleftrightarrow>
     (if t = [] then
        d = new_TextDecoder \<and> it = Created (if cr then skipLF fieldStart else fieldStart)
      else if hd t = COLON then
        d = new_TextDecoder \<and> (it = Created skipComment \<or> it = CommentMore)
      else if COLON \<notin> set t then
        (\<exists>buf rem bs0. it = NameMore buf rem \<and> t = bs0 @ rem \<and> rem \<noteq> [] \<and> dec_ok d buf bs0)
      else if tl (dropWhile (\<lambda>b. b \<noteq> COLON) t) = [] then
        d = new_TextDecoder \<and> it = Created (fieldValue (decode_all (takeWhile (\<lambda>b. b \<noteq> COLON) t)))
      else
        (\<exists>buf rem v0. it = ValueMore (decode_all (takeWhile (\<lambda>b. b \<noteq> COLON) t)) buf rem
            \<and> tl (dropWhile (\<lambda>b. b \<noteq> COLON) t) = v0 @ rem \<and> rem \<noteq> []
            \<and> val_ok d buf v0 \<and> (v0 \<noteq> [] \<and> buf = [] \<longrightarrow> hd rem \<noteq> SPACE)))"

definition rep :: "split \<Rightarrow> session \<Rightarrow> bool" where
  "rep a s \<longleftrightarrow>
     (case a of (ls, t, cr) \<Rightarrow>
        same_store s (foldl line_effect opened ls) \<and> (t \<noteq> [] \<longrightarrow> \<not> cr)
        \<and> (\<forall>b\<in>set t. \<not> lineEndChar b)
        \<and> pending_ok t cr (decoder (ctx s)) (stateIterator s))"

lemma same_store_line_effect:
  "same_store s a \<Longrightarrow> same_store (line_effect s l) (line_effect a l)"
  by (simp add: same_store_def line_effect_def blank_line_def store_field_def Let_def)

lemma same_store_refl [simp]: "same_store s s"
  by (simp add: same_store_def)

lemma same_store_trans: "same_store s t \<Longrightarrow> same_store t u \<Longrightarrow> same_store s u"
  by (simp add: same_store_def)

lemma same_store_updates [simp]:
  "same_store (s\<lparr>stateIterator := it\<rparr>) a = same_store s a"
  "same_store (s\<lparr>ctx := (ctx s)\<lparr>decoder := d\<rparr>\<rparr>) a = same_store s a"
  "same_store (s\<lparr>ctx := (ctx s)\<lparr>decoder := d\<rparr>, stateIterator := it\<rparr>) a = same_store s a"
  "same_store (s\<lparr>reader := r\<rparr>) a = same_store s a"
  "same_store (s\<lparr>finishedWith := f\<rparr>) a = same_store s a"
  by (simp_all add: same_store_def)

lemma first_of:
  obtains (none) "\<forall>b\<in>set r. \<not> Q b"
  | (found) w c0 rest where "r = w @ c0 # rest" "\<forall>b\<in>set w. \<not> Q b" "Q c0"
  using split_list_first_prop[of r Q] by blast

lemma line_effect_comment: "line_effect s (COLON # r) = blank_line s"
  by (simp add: line_effect_def)

lemma line_effect_name:
  "nm \<noteq> [] \<Longrightarrow> \<forall>b\<in>set nm. \<not> notNameChar b \<Longrightarrow> line_effect s nm = store_field s (decode_all nm) []"
  by (cases nm) (auto simp: line_effect_def notNameChar_def)

lemma line_effect_colon:
  assumes "nm \<noteq> []" "\<forall>b\<in>set nm. \<not> notNameChar b"
  shows "line_effect s (nm @ COLON # v)
       = store_field s (decode_all nm)
           (field_value (heap s ! message (ctx s)) (decode_all nm) (decode_all (strip_space v)))"
proof -
  have n: "\<forall>b\<in>set nm. b \<noteq> COLON" using assms(2) by (simp add: notNameChar_def)
  have "hd (nm @ COLON # v) \<noteq> COLON" using assms(1) n by (cases nm) auto
  then show ?thesis
    using assms(1) by (simp add: line_effect_def takeWhile_name[OF n] dropWhile_name[OF n] Let_def)
qed

text \<open>From the start of a line to the end of the chunk, when the line does not end in
  the chunk.\<close>

lemma feed_partial_line:
  assumes "stateIterator s = Created fieldStart" "decoder (ctx s) = new_TextDecoder"
    "w \<noteq> []" "\<forall>b\<in>set w. \<not> lineEndChar b"
  shows "same_store (feed lineEndChar s (pre @ w) (length pre)) s
       \<and> pending_ok w False (decoder (ctx (feed lineEndChar s (pre @ w) (length pre))))
           (stateIterator (feed lineEndChar s (pre @ w) (length pre)))"
proof -
  obtain b w' where w: "w = b # w'" using assms(3) by (cases w) auto
  have b: "b \<noteq> CR" "b \<noteq> LF" using assms(4) w by (auto simp: lineEndChar_def)
  let ?f = "feed lineEndChar s (pre @ w) (length pre)"
  have 0: "?f = feed lineEndChar (s\<lparr>stateIterator := FirstYield fieldStart\<rparr>) (pre @ w) (length pre)"
    using assms(1) w by (simp add: feed_Created)
  show ?thesis
  proof (cases "b = COLON")
    case True
    have 1: "?f = feed lineEndChar (s\<lparr>stateIterator := Created skipComment\<rparr>) (pre @ w) (length pre + 1)"
      unfolding 0 using True w feed_fieldStart_colon[of "s\<lparr>stateIterator := FirstYield fieldStart\<rparr>" lineEndChar pre w']
      by simp
    show ?thesis
    proof (cases "w' = []")
      case True
      then have "?f = s\<lparr>stateIterator := Created skipComment\<rparr>"
        unfolding 1 using w by (simp add: feed_done)
      then show ?thesis using assms(2) w \<open>b = COLON\<close> by (simp add: pending_ok_def)
    next
      case False
      have "?f = feed lineEndChar (s\<lparr>stateIterator := FirstYield skipComment\<rparr>) ((pre @ [b]) @ w')
          (length (pre @ [b]))"
        unfolding 1 using w False by (simp add: feed_Created)
      also have "\<dots> = s\<lparr>stateIterator := CommentMore\<rparr>"
        using feed_comment_partial[of "s\<lparr>stateIterator := FirstYield skipComment\<rparr>" w' lineEndChar "pre @ [b]"]
          False assms(4) w by simp
      finally show ?thesis using assms(2) w \<open>b = COLON\<close> by (simp add: pending_ok_def)
    qed
  next
    case False
    have 1: "?f = feed lineEndChar (s\<lparr>stateIterator := FirstYield fieldName\<rparr>) (pre @ w) (length pre)"
      unfolding 0 using False b w
        feed_fieldStart_name[of "s\<lparr>stateIterator := FirstYield fieldStart\<rparr>" b lineEndChar pre w']
      by (simp add: feed_Created)
    show ?thesis
    proof (cases rule: first_of[of w "\<lambda>x. x = COLON"])
      case none
      then have "\<forall>x\<in>set w. \<not> notNameChar x"
        using assms(4) by (auto simp: notNameChar_def lineEndChar_def)
      from feed_name_partial[OF _ assms(3) this, of "s\<lparr>stateIterator := FirstYield fieldName\<rparr>" lineEndChar pre]
      have "?f = s\<lparr>stateIterator := NameMore [] w\<rparr>" unfolding 1 by simp
      moreover have "COLON \<notin> set w" using none by auto
      ultimately show ?thesis
        using assms(2,3) w False by (auto simp: pending_ok_def dec_ok_def)
    next
      case (found nm c0 v)
      then have c0: "c0 = COLON" by simp
      have nm: "\<forall>x\<in>set nm. \<not> notNameChar x" "\<forall>b\<in>set nm. b \<noteq> COLON"
        using found assms(4) by (auto simp: notNameChar_def lineEndChar_def)
      have nme: "nm \<noteq> []" using found(1) w False c0 by (cases nm) auto
      have v: "\<forall>b\<in>set v. \<not> lineEndChar b" using assms(4) found(1) by simp
      let ?n = "decode_all nm"
      let ?s2 = "s\<lparr>stateIterator := Created (fieldValue ?n)\<rparr>"
      have 2: "?f = feed lineEndChar ?s2 (pre @ w) (length pre + length nm + 1)"
        using 1 feed_fieldName_colon[of "s\<lparr>stateIterator := FirstYield fieldName\<rparr>" nm lineEndChar pre v]
          nm(1) assms(2) unfolding found(1) c0 by (simp add: ctx_decoder_same)
      have t: "takeWhile (\<lambda>b. b \<noteq> COLON) w = nm" "tl (dropWhile (\<lambda>b. b \<noteq> COLON) w) = v"
        unfolding found(1) c0 by (simp_all add: takeWhile_name[OF nm(2)] dropWhile_name[OF nm(2)])
      have hw: "hd w \<noteq> COLON" "COLON \<in> set w"
      proof -
        show "hd w \<noteq> COLON" using w False by simp
        show "COLON \<in> set w" unfolding found(1) c0 by simp
      qed
      show ?thesis
      proof (cases "v = []")
        case True
        then have "?f = ?s2" using 2 unfolding found(1) by (simp add: feed_done)
        then show ?thesis using assms(2,3) hw t True by (simp add: pending_ok_def)
      next
        case False
        have "?f = feed lineEndChar (s\<lparr>stateIterator := FirstYield (fieldValue ?n)\<rparr>)
            ((pre @ nm @ [COLON]) @ v) (length (pre @ nm @ [COLON]))"
          using 2 False unfolding found(1) c0 by (simp add: feed_Created)
        also have "\<dots> = s\<lparr>stateIterator := ValueMore ?n [] v\<rparr>"
          using feed_value_partial[of "s\<lparr>stateIterator := FirstYield (fieldValue ?n)\<rparr>" ?n v lineEndChar
              "pre @ nm @ [COLON]"] False v by simp
        finally show ?thesis
          using assms(2,3) hw t False by (auto simp: pending_ok_def val_ok_def)
      qed
    qed
  qed
qed


lemma chunk_at:
  assumes "p < length c"
  shows "c = take p c @ c ! p # drop (Suc p) c" "length (take p c) = p"
  using assms by (simp_all add: id_take_nth_drop[symmetric])

lemma rep_line_start:
  "rep (ls, [], cr) s \<longleftrightarrow>
     same_store s (foldl line_effect opened ls) \<and> decoder (ctx s) = new_TextDecoder
     \<and> stateIterator s = Created (if cr then skipLF fieldStart else fieldStart)"
  by (simp add: rep_def pending_ok_def)

text \<open>From the start of a line inside a chunk to the end of the chunk.\<close>

lemma feed_from_line_start:
  assumes "rep (ls, [], cr) s" "p \<le> length c"
  shows "rep (foldl split_byte (ls, [], cr) (drop p c)) (feed lineEndChar s c p)"
  using assms
proof (induction "length c - p" arbitrary: s ls cr p rule: less_induct)
  case less
  note r = less.prems(1)[unfolded rep_line_start]
  show ?case
  proof (cases "p < length c")
    case False
    then show ?thesis using less.prems by (simp add: feed_done)
  next
    case True
    let ?pre = "take p c" and ?b = "c ! p" and ?post = "drop (Suc p) c"
    note c = chunk_at[OF True]
    have dr: "drop p c = ?b # ?post" using True by (simp add: Cons_nth_drop_Suc)
    show ?thesis
    proof (cases "cr \<and> ?b = LF")
      case True
      let ?s1 = "s\<lparr>stateIterator := Created fieldStart\<rparr>"
      have f: "feed lineEndChar s c p = feed lineEndChar ?s1 c (p + 1)"
        using feed_skipLF_LF[of s fieldStart lineEndChar ?pre ?post] r True c by simp
      have "rep (ls, [], False) ?s1" using r by (simp add: rep_line_start)
      from less.hyps[OF _ this, of "p + 1"] \<open>p < length c\<close>
      have "rep (foldl split_byte (ls, [], False) (drop (p + 1) c)) (feed lineEndChar ?s1 c (p + 1))"
        by simp
      then show ?thesis
        unfolding f dr using True by (simp add: split_CRLF)
    next
      case False
      let ?s1 = "s\<lparr>stateIterator := Created fieldStart\<rparr>"
      have f: "feed lineEndChar s c p = feed lineEndChar ?s1 c p"
      proof (cases cr)
        case True
        with False have "?b \<noteq> LF" by simp
        from feed_skipLF_other[of s fieldStart ?b lineEndChar ?pre ?post, OF _ this]
        show ?thesis using r True c by simp
      next
        case False
        then show ?thesis using r by (simp add: stateIterator_same)
      qed
      have s1: "stateIterator ?s1 = Created fieldStart" "decoder (ctx ?s1) = new_TextDecoder"
        "same_store ?s1 (foldl line_effect opened ls)"
        using r by simp_all
      show ?thesis
      proof (cases rule: first_of[of "drop p c" lineEndChar])
        case none
        have ne: "drop p c \<noteq> []" using dr by simp
        have a: "foldl split_byte (ls, [], cr) (drop p c) = (ls, drop p c, False)"
          using split_free[OF none ne, of ls "[]" cr] by simp
        from feed_partial_line[OF s1(1,2) ne none, of ?pre]
        have "same_store (feed lineEndChar ?s1 c p) ?s1"
          "pending_ok (drop p c) False (decoder (ctx (feed lineEndChar ?s1 c p)))
             (stateIterator (feed lineEndChar ?s1 c p))"
          using c(2) by simp_all
        then show ?thesis
          unfolding f a using s1(3) ne none
          by (auto simp: rep_def intro: same_store_trans)
      next
        case (found w c0 rest)
        have cc: "c = ?pre @ w @ c0 # rest" using append_take_drop_id[of p c] found(1) by simp
        let ?s2 = "(line_effect ?s1 w)\<lparr>stateIterator := Created (skipLFAfterCR c0 fieldStart)\<rparr>"
        have f2: "feed lineEndChar ?s1 c p = feed lineEndChar ?s2 c (p + length w + 1)"
          using feed_line[OF s1(1,2) found(3,2), of ?pre rest] cc c(2) by simp
        have nl: "\<not> (cr \<and> w = [] \<and> c0 = LF)"
          using False found(1) dr by (cases w) auto
        have "foldl split_byte (ls, [], cr) (w @ [c0]) = (ls @ [w], [], c0 = CR)"
        proof (cases "w = []")
          case True
          then show ?thesis using nl found(3) by (simp add: split_end)
        next
          case False
          then show ?thesis using split_free[OF found(2) False, of ls "[]" cr] found(3)
            by (simp add: split_end)
        qed
        moreover have "w @ c0 # rest = (w @ [c0]) @ rest" by simp
        ultimately have a: "foldl split_byte (ls, [], cr) (drop p c)
            = foldl split_byte (ls @ [w], [], c0 = CR) rest"
          unfolding found(1) by (simp only: foldl_append)
        have c0: "c0 = CR \<or> c0 = LF" using found(3) by (simp add: lineEndChar_def)
        have R: "rep (ls @ [w], [], c0 = CR) ?s2"
          using s1 c0 same_store_line_effect[OF s1(3), of w]
          by (auto simp: rep_line_start skipLFAfterCR_def)
        have len: "length c = p + length w + 1 + length rest"
          using arg_cong[OF found(1), of length] True by simp
        then have L: "p + length w + 1 \<le> length c" "length c - (p + length w + 1) < length c - p"
          by simp_all
        have "drop (length w + 1) (drop p c) = rest" unfolding found(1) by simp
        then have D: "drop (p + length w + 1) c = rest" by (simp add: add.commute add.left_commute)
        from less.hyps[OF L(2) R L(1)] show ?thesis
          unfolding f f2 a D .
      qed
    qed
  qed
qed


lemma same_store_like:
  "same_store x a \<Longrightarrow> heap y = heap x \<Longrightarrow> message (ctx y) = message (ctx x)
     \<Longrightarrow> yielded y = yielded x \<Longrightarrow> same_store y a"
  by (simp add: same_store_def)

lemma split_resume:
  assumes "\<forall>b\<in>set w. \<not> lineEndChar b" "lineEndChar c0"
  shows "foldl split_byte (ls, t, False) (w @ c0 # rest)
       = foldl split_byte (ls @ [t @ w], [], c0 = CR) rest"
proof -
  have "foldl split_byte (ls, t, False) (w @ [c0]) = (ls @ [t @ w], [], c0 = CR)"
    using split_free'[OF assms(1), of ls t] assms(2) by (simp add: split_end)
  moreover have "w @ c0 # rest = (w @ [c0]) @ rest" by simp
  ultimately show ?thesis by (simp only: foldl_append)
qed

lemma after_line:
  assumes "same_store s2 (foldl line_effect opened (ls @ [l]))" "decoder (ctx s2) = new_TextDecoder"
    "stateIterator s2 = Created (skipLFAfterCR c0 fieldStart)" "lineEndChar c0"
  shows "rep (foldl split_byte (ls @ [l], [], c0 = CR) rest)
           (feed lineEndChar s2 (w @ c0 # rest) (length w + 1))"
proof -
  have "c0 = CR \<or> c0 = LF" using assms(4) by (simp add: lineEndChar_def)
  then have "rep (ls @ [l], [], c0 = CR) s2"
    using assms(1,2,3) by (auto simp: rep_line_start skipLFAfterCR_def)
  from feed_from_line_start[OF this, of "length w + 1" "w @ c0 # rest"] show ?thesis by simp
qed

lemma feed_from_value_start:
  assumes "same_store s (foldl line_effect opened ls)" "decoder (ctx s) = new_TextDecoder"
    "stateIterator s = Created (fieldValue (decode_all nm))"
    "nm \<noteq> []" "\<forall>b\<in>set nm. \<not> notNameChar b" "p \<le> length c"
  shows "rep (foldl split_byte (ls, nm @ [COLON], False) (drop p c)) (feed lineEndChar s c p)"
proof -
  have n: "\<forall>b\<in>set nm. b \<noteq> COLON" "\<forall>b\<in>set nm. \<not> lineEndChar b"
    using assms(5) by (auto simp: notNameChar_def lineEndChar_def)
  have hd: "hd (nm @ x) \<noteq> COLON" for x using assms(4) n(1) by (cases nm) auto
  have tw: "takeWhile (\<lambda>b. b \<noteq> COLON) (nm @ COLON # x) = nm"
    "tl (dropWhile (\<lambda>b. b \<noteq> COLON) (nm @ COLON # x)) = x" for x
    by (simp_all add: takeWhile_name[OF n(1)] dropWhile_name[OF n(1)])
  show ?thesis
  proof (cases "p < length c")
    case False
    then show ?thesis
      using assms(1,2,3) n(2) hd[of "[COLON]"] tw[of "[]"]
      by (simp add: feed_done rep_def pending_ok_def lineEndChar_def)
  next
    case True
    then have ne: "drop p c \<noteq> []" by simp
    have c: "c = take p c @ drop p c" "length (take p c) = p" using True by simp_all
    let ?s1 = "s\<lparr>stateIterator := FirstYield (fieldValue (decode_all nm))\<rparr>"
    have f: "feed lineEndChar s c p = feed lineEndChar ?s1 c p"
      using assms(3) True by (simp add: feed_Created)
    show ?thesis
    proof (cases rule: first_of[of "drop p c" lineEndChar])
      case none
      have "feed lineEndChar ?s1 (take p c @ drop p c) (length (take p c))
          = ?s1\<lparr>stateIterator := ValueMore (decode_all nm) [] (drop p c)\<rparr>"
        by (rule feed_value_partial[OF _ ne none]) simp
      then have g: "feed lineEndChar s c p = s\<lparr>stateIterator := ValueMore (decode_all nm) [] (drop p c)\<rparr>"
        unfolding f using c by simp
      have a: "foldl split_byte (ls, nm @ [COLON], False) (drop p c)
          = (ls, nm @ COLON # drop p c, False)"
        using split_free'[OF none, of ls "nm @ [COLON]"] by simp
      show ?thesis
        unfolding g a
        using assms(1,2) n(2) none ne hd[of "COLON # drop p c"] tw[of "drop p c"]
        by (auto simp: rep_def pending_ok_def val_ok_def lineEndChar_def)
    next
      case (found w c0 rest)
      have cc: "c = take p c @ w @ c0 # rest" using append_take_drop_id[of p c] found(1) by simp
      let ?v = "field_value (heap s ! message (ctx s)) (decode_all nm) (decode_all (strip_space w))"
      let ?s2 = "(store_field s (decode_all nm) ?v)
                  \<lparr>ctx := (ctx s)\<lparr>decoder := new_TextDecoder\<rparr>,
                    stateIterator := Created (skipLFAfterCR c0 fieldStart)\<rparr>"
      have "feed lineEndChar ?s1 (take p c @ w @ c0 # rest) (length (take p c))
          = feed lineEndChar ?s2 (take p c @ w @ c0 # rest) (length (take p c) + length w + 1)"
        using feed_fieldValue[of ?s1 "decode_all nm" w c0 "take p c" rest] found(2,3) assms(2)
        by (simp add: store_field_def)
      then have g: "feed lineEndChar s c p = feed lineEndChar ?s2 c (p + length w + 1)"
        unfolding f using cc c(2) by simp
      have le: "line_effect s (nm @ COLON # w) = store_field s (decode_all nm) ?v"
        using line_effect_colon[OF assms(4,5)] by simp
      have "same_store (store_field s (decode_all nm) ?v)
          (foldl line_effect opened (ls @ [nm @ COLON # w]))"
        using same_store_line_effect[OF assms(1), of "nm @ COLON # w"] unfolding le by simp
      then have st: "same_store ?s2 (foldl line_effect opened (ls @ [nm @ COLON # w]))"
        by (rule same_store_like) (simp_all add: store_field_def)
      have R: "rep (ls @ [nm @ COLON # w], [], c0 = CR) ?s2"
        using st found(3) by (auto simp: rep_line_start skipLFAfterCR_def lineEndChar_def)
      have len: "length c = p + length w + 1 + length rest"
        using arg_cong[OF found(1), of length] True by simp
      have "drop (length w + 1) (drop p c) = rest" unfolding found(1) by simp
      then have D: "drop (p + length w + 1) c = rest" by (simp add: add.commute add.left_commute)
      have a: "foldl split_byte (ls, nm @ [COLON], False) (drop p c)
          = foldl split_byte (ls @ [nm @ COLON # w], [], c0 = CR) rest"
        unfolding found(1) using split_resume[OF found(2,3), of ls "nm @ [COLON]" rest] by simp
      from feed_from_line_start[OF R, of "p + length w + 1" c] len show ?thesis
        unfolding g a D by simp
    qed
  qed
qed


text \<open>
  The one cut that changes what is parsed: the chunk begins with a space, inside a value
  of which some bytes have arrived but no text has been decoded yet (they were the
  leading space, a byte-order mark, or the beginning of a multi-byte character). The
  buffer of \<^verbatim>\<open>collectUntilChar\<close> is still \<^verbatim>\<open>''\<close> then, and the space is stripped as if
  it were the first byte of the value.
\<close>

definition strips_again :: "byte list \<Rightarrow> byte list \<Rightarrow> bool" where
  "strips_again t c \<longleftrightarrow>
     c \<noteq> [] \<and> hd c = SPACE \<and> t \<noteq> [] \<and> hd t \<noteq> COLON \<and> COLON \<in> set t \<and>
     tl (dropWhile (\<lambda>b. b \<noteq> COLON) t) \<noteq> [] \<and>
     snd (decode_stream new_TextDecoder (strip_space (tl (dropWhile (\<lambda>b. b \<noteq> COLON) t)))) = []"

lemma feed_chunk_comment:
  assumes "rep (ls, COLON # t, cr) s" "c \<noteq> []"
  shows "rep (foldl split_byte (ls, COLON # t, cr) c) (feed lineEndChar s c 0)"
proof -
  from assms(1) have r: "same_store s (foldl line_effect opened ls)" "\<not> cr"
    "\<forall>b\<in>set t. \<not> lineEndChar b" "decoder (ctx s) = new_TextDecoder"
    "stateIterator s = Created skipComment \<or> stateIterator s = CommentMore"
    by (auto simp: rep_def pending_ok_def)
  show ?thesis
  proof (cases rule: first_of[of c lineEndChar])
    case none
    have "feed lineEndChar s c 0 = s\<lparr>stateIterator := CommentMore\<rparr>"
      using r(5)
    proof
      assume a: "stateIterator s = Created skipComment"
      then have "feed lineEndChar s c 0 = feed lineEndChar (s\<lparr>stateIterator := FirstYield skipComment\<rparr>) c 0"
        using assms(2) by (simp add: feed_Created)
      also have "\<dots> = (s\<lparr>stateIterator := FirstYield skipComment\<rparr>)\<lparr>stateIterator := CommentMore\<rparr>"
        using feed_comment_partial[of "s\<lparr>stateIterator := FirstYield skipComment\<rparr>" c lineEndChar "[]"]
          assms(2) none by simp
      finally show ?thesis by simp
    next
      assume "stateIterator s = CommentMore"
      then show ?thesis
        using feed_comment_partial[of s c lineEndChar "[]"] assms(2) none by simp
    qed
    moreover have "foldl split_byte (ls, COLON # t, cr) c = (ls, (COLON # t) @ c, False)"
      using split_free'[OF none, of ls "COLON # t"] r(2) by simp
    ultimately show ?thesis
      using r none by (auto simp: rep_def pending_ok_def lineEndChar_def)
  next
    case (found w c0 rest)
    let ?s2 = "(blank_line s)\<lparr>stateIterator := Created (skipLFAfterCR c0 fieldStart)\<rparr>"
    have f: "feed lineEndChar s (w @ c0 # rest) 0 = feed lineEndChar ?s2 (w @ c0 # rest) (length w + 1)"
      by (rule feed_comment_found[OF r(5) found(2,3)])
    have "same_store (blank_line s) (foldl line_effect opened (ls @ [(COLON # t) @ w]))"
      using same_store_line_effect[OF r(1), of "(COLON # t) @ w"] by (simp add: line_effect_comment)
    then have st: "same_store ?s2 (foldl line_effect opened (ls @ [(COLON # t) @ w]))"
      by (rule same_store_like) simp_all
    have "decoder (ctx ?s2) = new_TextDecoder" using r(4) by simp
    from after_line[OF st this _ found(3), where w = w and rest = rest]
    have "rep (foldl split_byte (ls @ [(COLON # t) @ w], [], c0 = CR) rest)
        (feed lineEndChar s (w @ c0 # rest) 0)"
      unfolding f by simp
    then show ?thesis
      using split_resume[OF found(2,3), of ls "COLON # t" rest] r(2) unfolding found(1) by simp
  qed
qed

lemma feed_chunk_name:
  assumes "rep (ls, t, cr) s" "t \<noteq> []" "hd t \<noteq> COLON" "COLON \<notin> set t" "c \<noteq> []"
  shows "rep (foldl split_byte (ls, t, cr) c) (feed lineEndChar s c 0)"
proof -
  from assms(1-4) obtain buf rem bs0 where
    r: "same_store s (foldl line_effect opened ls)" "\<not> cr" "\<forall>b\<in>set t. \<not> lineEndChar b"
       "stateIterator s = NameMore buf rem" "t = bs0 @ rem" "rem \<noteq> []"
       "dec_ok (decoder (ctx s)) buf bs0"
    by (auto simp: rep_def pending_ok_def)
  have tn: "\<forall>b\<in>set t. \<not> notNameChar b"
    using r(3) assms(4) by (auto simp: notNameChar_def lineEndChar_def)
  show ?thesis
  proof (cases rule: first_of[of c notNameChar])
    case none
    have nl: "\<forall>b\<in>set c. \<not> lineEndChar b" using none by (auto simp: notNameChar_def lineEndChar_def)
    have nc: "COLON \<notin> set c" using none by (auto simp: notNameChar_def)
    have a: "foldl split_byte (ls, t, cr) c = (ls, t @ c, False)"
      using split_free'[OF nl, of ls t] r(2) by simp
    have "dec_ok (fst (decode_stream (decoder (ctx s)) rem))
            (buf @ snd (decode_stream (decoder (ctx s)) rem)) t"
      using dec_ok_add[OF r(7,6)] r(5) by simp
    then show ?thesis
      unfolding a feed_NameMore_cont[OF r(4) assms(5) none]
      using r(1,3) nl nc assms(2,3,4,5) by (auto simp: rep_def pending_ok_def)
  next
    case (found w b rest)
    have wl: "\<forall>x\<in>set w. \<not> lineEndChar x" using found(2) by (auto simp: notNameChar_def lineEndChar_def)
    note f = feed_NameMore_found[OF r(4,7,6) found(2,3), of lineEndChar rest]
    have nm: "t @ w \<noteq> []" "\<forall>x\<in>set (t @ w). \<not> notNameChar x"
      using assms(2) tn found(2) by auto
    have tw: "bs0 @ rem @ w = t @ w" using r(5) by simp
    show ?thesis
    proof (cases "b = COLON")
      case True
      let ?s2 = "s\<lparr>ctx := (ctx s)\<lparr>decoder := new_TextDecoder\<rparr>,
                   stateIterator := Created (fieldValue (decode_all (t @ w)))\<rparr>"
      have g: "feed lineEndChar s c 0 = feed lineEndChar ?s2 c (length w + 1)"
        using f True tw unfolding found(1) by simp
      have a: "foldl split_byte (ls, t, cr) c
          = foldl split_byte (ls, (t @ w) @ [COLON], False) (drop (length w + 1) c)"
      proof -
        have "\<forall>x\<in>set (w @ [COLON]). \<not> lineEndChar x" using wl by (simp add: lineEndChar_def)
        from split_free'[OF this, of ls t] have x: "foldl split_byte (ls, t, False) (w @ [COLON])
            = (ls, (t @ w) @ [COLON], False)" by simp
        have "foldl split_byte (ls, t, False) ((w @ [COLON]) @ rest)
            = foldl split_byte (foldl split_byte (ls, t, False) (w @ [COLON])) rest"
          by (rule foldl_append)
        also have "\<dots> = foldl split_byte (ls, (t @ w) @ [COLON], False) rest"
          by (simp only: x)
        finally show ?thesis using r(2) True unfolding found(1) by simp
      qed
      have "length w + 1 \<le> length c" using found(1) by simp
      from feed_from_value_start[OF _ _ _ nm this, of ?s2 ls] r(1) show ?thesis
        unfolding g a by simp
    next
      case False
      then have b: "lineEndChar b" using found(3) by (simp add: notNameChar_def lineEndChar_def)
      let ?s2 = "(store_field s (decode_all (t @ w)) [])
                   \<lparr>ctx := (ctx s)\<lparr>decoder := new_TextDecoder\<rparr>,
                     stateIterator := Created (skipLFAfterCR b fieldStart)\<rparr>"
      have g: "feed lineEndChar s (w @ b # rest) 0 = feed lineEndChar ?s2 (w @ b # rest) (length w + 1)"
        using f False tw by simp
      have "same_store (store_field s (decode_all (t @ w)) [])
          (foldl line_effect opened (ls @ [t @ w]))"
        using same_store_line_effect[OF r(1), of "t @ w"] line_effect_name[OF nm, of s] by simp
      then have st: "same_store ?s2 (foldl line_effect opened (ls @ [t @ w]))"
        by (rule same_store_like) (simp_all add: store_field_def)
      from after_line[OF st _ _ b, where w = w and rest = rest]
      have "rep (foldl split_byte (ls @ [t @ w], [], b = CR) rest)
          (feed lineEndChar s (w @ b # rest) 0)"
        unfolding g by simp
      then show ?thesis
        using split_resume[OF wl b, of ls t rest] r(2) unfolding found(1) by simp
    qed
  qed
qed


lemma feed_chunk_value:
  assumes "rep (ls, t, cr) s" "t \<noteq> []" "hd t \<noteq> COLON" "COLON \<in> set t" "c \<noteq> []"
    "\<not> strips_again t c"
  shows "rep (foldl split_byte (ls, t, cr) c) (feed lineEndChar s c 0)"
proof -
  define nm where "nm = takeWhile (\<lambda>b. b \<noteq> COLON) t"
  define v where "v = tl (dropWhile (\<lambda>b. b \<noteq> COLON) t)"
  have t: "t = nm @ COLON # v" using split_at_colon[OF assms(4)] by (simp add: nm_def v_def)
  from assms(1,2) have r: "same_store s (foldl line_effect opened ls)" "\<not> cr"
    "\<forall>b\<in>set t. \<not> lineEndChar b"
    by (auto simp: rep_def)
  have nm: "nm \<noteq> []" "\<forall>b\<in>set nm. \<not> notNameChar b"
  proof -
    show "nm \<noteq> []" using assms(2,3) unfolding nm_def by (cases t) auto
    have "\<forall>b\<in>set nm. b \<noteq> COLON" unfolding nm_def by (auto dest: set_takeWhileD)
    moreover have "\<forall>b\<in>set nm. \<not> lineEndChar b" using r(3) unfolding nm_def by (auto dest: set_takeWhileD)
    ultimately show "\<forall>b\<in>set nm. \<not> notNameChar b"
      by (auto simp: notNameChar_def lineEndChar_def)
  qed
  have nc: "\<forall>b\<in>set nm. b \<noteq> COLON" using nm(2) by (simp add: notNameChar_def)
  have vl: "\<forall>b\<in>set v. \<not> lineEndChar b" using r(3) unfolding t by simp
  have pend: "pending_ok t cr (decoder (ctx s)) (stateIterator s)"
    using assms(1) by (simp add: rep_def)
  show ?thesis
  proof (cases "v = []")
    case True
    have "decoder (ctx s) = new_TextDecoder" "stateIterator s = Created (fieldValue (decode_all nm))"
      using pend assms(2,3,4) True unfolding pending_ok_def nm_def[symmetric] v_def[symmetric]
      by simp_all
    from feed_from_value_start[OF r(1) this nm, of 0 c] show ?thesis
      using r(2) True unfolding t by simp
  next
    case False
    from pend assms(2,3,4) False obtain buf rem v0 where
      p: "stateIterator s = ValueMore (decode_all nm) buf rem" "v = v0 @ rem" "rem \<noteq> []"
         "val_ok (decoder (ctx s)) buf v0" "v0 \<noteq> [] \<and> buf = [] \<longrightarrow> hd rem \<noteq> SPACE"
      unfolding pending_ok_def nm_def[symmetric] v_def[symmetric] by auto
    let ?a = "add_bytes True (decoder (ctx s)) buf rem"
    have ok: "val_ok (fst ?a) (snd ?a) v" using val_ok_add[OF p(4,3,5)] p(2) by simp
    then have dv: "decode_stream new_TextDecoder (strip_space v) = (fst ?a, snd ?a)"
      using False by (simp add: val_ok_def)
    have safe: "snd ?a = [] \<longrightarrow> hd c \<noteq> SPACE"
      using assms(2,3,4,5,6) False dv unfolding strips_again_def v_def[symmetric] by auto
    show ?thesis
    proof (cases rule: first_of[of c lineEndChar])
      case none
      have a: "foldl split_byte (ls, t, cr) c = (ls, t @ c, False)"
        using split_free'[OF none, of ls t] r(2) by simp
      have tc: "takeWhile (\<lambda>b. b \<noteq> COLON) (t @ c) = nm"
        "tl (dropWhile (\<lambda>b. b \<noteq> COLON) (t @ c)) = v @ c"
        unfolding t using takeWhile_name[OF nc, of "v @ c"] dropWhile_name[OF nc, of "v @ c"]
        by simp_all
      have ex: "\<exists>buf' rem' v0'. ValueMore (decode_all nm) (snd ?a) c = ValueMore (decode_all nm) buf' rem'
          \<and> v @ c = v0' @ rem' \<and> rem' \<noteq> [] \<and> val_ok (fst ?a) buf' v0'
          \<and> (v0' \<noteq> [] \<and> buf' = [] \<longrightarrow> hd rem' \<noteq> SPACE)"
        using ok assms(5) safe by (intro exI[of _ "snd ?a"] exI[of _ c] exI[of _ v]) simp
      have hd: "t @ c \<noteq> []" "hd (t @ c) \<noteq> COLON" "COLON \<in> set (t @ c)" "v @ c \<noteq> []"
        using assms(2,3,4,5) by simp_all
      have "pending_ok (t @ c) False (fst ?a) (ValueMore (decode_all nm) (snd ?a) c)"
        unfolding pending_ok_def tc using hd ex by simp
      then show ?thesis
        unfolding a feed_ValueMore_cont[OF p(1) assms(5) none]
        using r(1,3) none by (auto simp: rep_def)
    next
      case (found w c0 rest)
      let ?val = "field_value (heap s ! message (ctx s)) (decode_all nm)
                    (decode_all (strip_space (v @ w)))"
      let ?s2 = "(store_field s (decode_all nm) ?val)
              \<lparr>ctx := (ctx s)\<lparr>decoder := new_TextDecoder\<rparr>,
                stateIterator := Created (skipLFAfterCR c0 fieldStart)\<rparr>"
      have sf: "snd (decode_stream new_TextDecoder (strip_space (v0 @ rem))) = [] \<and> w \<noteq> []
          \<longrightarrow> hd w \<noteq> SPACE"
        using safe dv p(2) found(1) by (cases w) auto
      have g: "feed lineEndChar s (w @ c0 # rest) 0
          = feed lineEndChar ?s2 (w @ c0 # rest) (length w + 1)"
        using feed_ValueMore_found[OF p(1,4,3,5) found(2,3) sf, of rest] p(2) by simp
      have "line_effect s (nm @ COLON # (v @ w)) = store_field s (decode_all nm) ?val"
        by (rule line_effect_colon[OF nm])
      moreover have "t @ w = nm @ COLON # (v @ w)" unfolding t by simp
      ultimately have "same_store (store_field s (decode_all nm) ?val)
          (foldl line_effect opened (ls @ [t @ w]))"
        using same_store_line_effect[OF r(1), of "t @ w"] by simp
      then have st: "same_store ?s2 (foldl line_effect opened (ls @ [t @ w]))"
        by (rule same_store_like) (simp_all add: store_field_def)
      from after_line[OF st _ _ found(3), where w = w and rest = rest]
      have "rep (foldl split_byte (ls @ [t @ w], [], c0 = CR) rest)
          (feed lineEndChar s (w @ c0 # rest) 0)"
        unfolding g by simp
      then show ?thesis
        using split_resume[OF found(2,3), of ls t rest] r(2) unfolding found(1) by simp
    qed
  qed
qed

text \<open>One chunk: the session after it stands for the stream with the chunk added.\<close>

theorem feed_chunk:
  assumes "rep a s" "\<not> strips_again (fst (snd a)) c"
  shows "rep (foldl split_byte a c) (feed lineEndChar s c 0)"
proof (cases "c = []")
  case True
  then show ?thesis using assms(1) by (simp add: feed_done)
next
  case False
  obtain ls t cr where a: "a = (ls, t, cr)" by (cases a) auto
  show ?thesis
  proof (cases "t = []")
    case True
    with assms(1) a feed_from_line_start[of ls cr s 0 c] show ?thesis by simp
  next
    case t: False
    show ?thesis
    proof (cases "hd t = COLON")
      case True
      then obtain t' where "t = COLON # t'" using t by (cases t) auto
      with feed_chunk_comment[of ls t' cr s c] assms(1) a False show ?thesis by simp
    next
      case h: False
      show ?thesis
      proof (cases "COLON \<in> set t")
        case True
        from feed_chunk_value[OF _ t h True False, of ls cr s] assms a show ?thesis by simp
      next
        case False
        from feed_chunk_name[OF _ t h False \<open>c \<noteq> []\<close>, of ls cr s] assms a show ?thesis by simp
      qed
    qed
  qed
qed


text \<open>A stream cut into chunks none of which begins with such a space.\<close>

fun cuts_safe :: "split \<Rightarrow> byte list list \<Rightarrow> bool" where
  "cuts_safe a [] = True"
| "cuts_safe a (c # cs) = (\<not> strips_again (fst (snd a)) c \<and> cuts_safe (foldl split_byte a c) cs)"

definition safe_chunking :: "byte list list \<Rightarrow> bool" where
  "safe_chunking cs = cuts_safe ([], [], False) cs"

lemma rep_updates [simp]:
  "rep a (s\<lparr>reader := r\<rparr>) = rep a s" "rep a (s\<lparr>finishedWith := f\<rparr>) = rep a s"
  by (simp_all add: rep_def)

lemma readLoop_chunks:
  assumes "rep a s" "closeAfter s = None" "\<not> clientClosed s"
    "reader s = \<lparr>pending = chunks cs, cancelled = False\<rparr>" "cuts_safe a cs"
  shows "\<exists>s'. readLoop lineEndChar s False = Inr s' \<and> rep (foldl split_byte a (concat cs)) s'"
  using assms
proof (induction cs arbitrary: a s)
  case Nil
  then show ?case
    by (simp add: readLoop_more readLoop_stop reader_read_def chunks_def)
next
  case (Cons c cs)
  let ?s1 = "s\<lparr>reader := \<lparr>pending = chunks cs, cancelled = False\<rparr>\<rparr>"
  let ?s2 = "if 0 < length c then feed lineEndChar ?s1 c 0 else ?s1"
  have rd: "reader_read (reader s)
      = (ReadResult (Some c) False, \<lparr>pending = chunks cs, cancelled = False\<rparr>)"
    using Cons.prems(4) by (simp add: reader_read_def chunks_def)
  have f: "readLoop lineEndChar s False = readLoop lineEndChar ?s2 False"
    using Cons.prems(3) rd by (simp add: readLoop_more)
  have c1: "closeAfter ?s1 = None" using Cons.prems(2) by simp
  have "rep (foldl split_byte a c) ?s2"
    using feed_chunk[of a ?s1 c] Cons.prems(1,5) by simp
  moreover have "closeAfter ?s2 = None"
    using feed_closeAfter_None[OF c1, of lineEndChar c 0] c1 by simp
  moreover have "\<not> clientClosed ?s2" "reader ?s2 = \<lparr>pending = chunks cs, cancelled = False\<rparr>"
    using feed_never_closing[OF c1, of lineEndChar c 0] Cons.prems(3) by simp_all
  moreover have "cuts_safe (foldl split_byte a c) cs" using Cons.prems(5) by simp
  ultimately obtain s' where "readLoop lineEndChar ?s2 False = Inr s'"
    "rep (foldl split_byte (foldl split_byte a c) (concat cs)) s'"
    using Cons.IH[of "foldl split_byte a c" ?s2] by blast
  then show ?case unfolding f by simp
qed

text \<open>
  Every session whose consumer never closes, on a byte source that delivers the chunks
  and ends, finishes in a state that stands for the lines of the whole stream.
\<close>

theorem rep_run:
  assumes "safe_chunking cs"
  shows "rep (split_lines (concat cs)) (fst (run lineEndChar None (chunks cs)))"
proof -
  let ?e = "(new_session (chunks cs) None)\<lparr>heap := heap (new_session (chunks cs) None) @ [[]],
      ctx := \<lparr>message = length (heap (new_session (chunks cs) None)), decoder = new_TextDecoder\<rparr>,
      stateIterator := Created fieldStart\<rparr>"
  have "rep ([], [], False) ?e"
    by (simp add: rep_line_start same_store_def new_session_def opened_def)
  from readLoop_chunks[OF this, of cs] assms obtain s' where
    "readLoop lineEndChar ?e False = Inr s'" "rep (split_lines (concat cs)) s'"
    by (auto simp: new_session_def safe_chunking_def split_lines_def)
  then show ?thesis
    by (simp add: run_def getMessages_def new_session_def Let_def)
qed

text \<open>The messages that a sequence of lines gives.\<close>

definition lines_messages :: "byte list list \<Rightarrow> Message list" where
  "lines_messages ls = map snd (yielded (foldl line_effect opened ls))"

text \<open>The messages of a session are those of the complete lines of its stream, however
  the stream is cut into chunks.\<close>

theorem messages_of_stream:
  assumes "safe_chunking cs"
  shows "messages (run lineEndChar None (chunks cs)) = lines_messages (complete_lines (concat cs))"
  using rep_run[OF assms]
  by (cases "split_lines (concat cs)")
     (simp add: rep_def same_store_def messages_def lines_messages_def complete_lines_def)

text \<open>A stream delivered in one chunk, and one cut where no chunk begins with a space,
  are cut in this way.\<close>

lemma cuts_safe_no_space:
  "\<forall>c\<in>set cs. c = [] \<or> hd c \<noteq> SPACE \<Longrightarrow> cuts_safe a cs"
  by (induction cs arbitrary: a) (auto simp: strips_again_def)

lemma safe_chunking_no_space:
  "\<forall>c\<in>set cs. c = [] \<or> hd c \<noteq> SPACE \<Longrightarrow> safe_chunking cs"
  by (simp add: safe_chunking_def cuts_safe_no_space)

lemma safe_chunking_single: "safe_chunking [c]"
  by (simp add: safe_chunking_def strips_again_def)

lemmas cuts_eval =
  safe_chunking_def cuts_safe.simps strips_again_def split_byte_def


section \<open>Line endings\<close>

text \<open>
  A stream written as lines, each with its own line ending: LF, CR or CR LF. The bytes
  CR LF are one line ending, so a line that ends with CR cannot be followed by an empty
  line that ends with LF: \<open>separate\<close>.
\<close>

type_synonym ended_line = "byte list \<times> byte list"

definition stream_of :: "ended_line list \<Rightarrow> byte list" where
  "stream_of tls = concat (map (\<lambda>x. fst x @ snd x) tls)"

definition ended_ok :: "ended_line \<Rightarrow> bool" where
  "ended_ok x \<longleftrightarrow>
     (\<forall>b\<in>set (fst x). b \<noteq> CR \<and> b \<noteq> LF) \<and> (snd x = [LF] \<or> snd x = [CR] \<or> snd x = [CR, LF])"

fun separate :: "ended_line list \<Rightarrow> bool" where
  "separate (x # y # xs) = (\<not> (snd x = [CR] \<and> fst y = [] \<and> snd y = [LF]) \<and> separate (y # xs))"
| "separate xs = True"

lemma split_ended_line:
  assumes "ended_ok x" "\<not> (cr \<and> fst x = [] \<and> snd x = [LF])"
  shows "foldl split_byte (ls, [], cr) (fst x @ snd x) = (ls @ [fst x], [], snd x = [CR])"
proof -
  have l: "\<forall>b\<in>set (fst x). \<not> lineEndChar b" using assms(1) by (simp add: ended_ok_def lineEndChar_def)
  have a: "foldl split_byte (ls, [], cr) (fst x) = (ls, fst x, cr \<and> fst x = [])"
    using split_free[OF l, of ls "[]" cr] by (cases "fst x = []") simp_all
  have t: "snd x = [LF] \<or> snd x = [CR] \<or> snd x = [CR, LF]" using assms(1) by (simp add: ended_ok_def)
  show ?thesis
    using t assms(2) by (auto simp: a split_byte_def)
qed

lemma split_stream:
  assumes "\<forall>x\<in>set tls. ended_ok x" "separate tls"
    "cr \<longrightarrow> tls = [] \<or> \<not> (fst (hd tls) = [] \<and> snd (hd tls) = [LF])"
  shows "foldl split_byte (ls, [], cr) (stream_of tls)
       = (ls @ map fst tls, [], if tls = [] then cr else snd (last tls) = [CR])"
  using assms
proof (induction tls arbitrary: ls cr)
  case Nil
  then show ?case by (simp add: stream_of_def)
next
  case (Cons x xs)
  have 1: "foldl split_byte (ls, [], cr) (fst x @ snd x) = (ls @ [fst x], [], snd x = [CR])"
    using split_ended_line[of x cr ls] Cons.prems(1,3) by auto
  have 2: "separate xs" using Cons.prems(2) by (cases xs) auto
  have 3: "snd x = [CR] \<longrightarrow> xs = [] \<or> \<not> (fst (hd xs) = [] \<and> snd (hd xs) = [LF])"
    using Cons.prems(2) by (cases xs) auto
  have "foldl split_byte (ls, [], cr) (stream_of (x # xs))
      = foldl split_byte (ls @ [fst x], [], snd x = [CR]) (stream_of xs)"
    using 1 by (simp add: stream_of_def)
  also have "\<dots> = ((ls @ [fst x]) @ map fst xs, [], if xs = [] then snd x = [CR] else snd (last xs) = [CR])"
    using Cons.IH[OF _ 2 3, of "ls @ [fst x]"] Cons.prems(1) by simp
  finally show ?case by simp
qed

lemma lines_of_stream:
  assumes "\<forall>x\<in>set tls. ended_ok x" "separate tls"
  shows "complete_lines (stream_of tls) = map fst tls"
  using split_stream[OF assms, of False "[]"] by (simp add: complete_lines_def split_lines_def)

text \<open>
  C6: line-ending equivalence. Let a stream be any sequence of lines (fields, comments
  and blank lines alike), each ended by LF, by CR or by CR LF, in any mixture, and let
  it be cut into chunks anywhere: inside a line, between lines, between the CR and the
  LF of a line ending (only the cut before a space described above is left out). The
  messages handed to the consumer are those that the lines alone determine,
  \<open>lines_messages\<close>, so they are the same for every choice of line endings and every such
  cut; in particular they are those of the stream in one chunk with LF after each line.
  CR LF is one line ending and never a line ending followed by a blank line.
\<close>

theorem line_endings_equivalent:
  assumes "\<forall>x\<in>set tls. ended_ok x" and "separate tls"
    and "concat cs = stream_of tls" and "safe_chunking cs"
  shows "messages (run lineEndChar None (chunks cs)) = lines_messages (map fst tls)
       \<and> messages (run lineEndChar None (chunks cs))
           = messages (run lineEndChar None (chunks [join [LF] (map fst tls)]))"
proof -
  have 1: "messages (run lineEndChar None (chunks cs)) = lines_messages (map fst tls)"
    using messages_of_stream[OF assms(4)] lines_of_stream[OF assms(1,2)] assms(3) by simp
  have "\<forall>l\<in>set (map fst tls). \<forall>b\<in>set l. \<not> lineEndChar b"
    using assms(1) by (auto simp: ended_ok_def lineEndChar_def)
  from messages_lines[OF this, of "[LF]"]
  have 2: "messages (run lineEndChar None (chunks [join [LF] (map fst tls)]))
      = lines_messages (map fst tls)"
    by (simp add: lines_messages_def)
  from 1 2 show ?thesis by simp
qed


lemmas lines_eval =
  lines_messages_def line_effect_def blank_line_def store_field_def field_value_def opened_def
  decode_all_def strip_space_def


text \<open>The witness of C6: a comment line, \<^verbatim>\<open>id:1\<close>, \<^verbatim>\<open>data:d1\<close> and a blank line, ended
  by CR, CR, CR LF and CR LF, cut inside the name \<^verbatim>\<open>data\<close> and inside both CR LF.\<close>

theorem line_endings_equivalent_witness:
  "messages (run lineEndChar None
      (chunks [octets '':c'' @ [CR] @ octets ''id:1'' @ [CR] @ octets ''da'',
               octets ''ta:d1'' @ [CR], [LF, CR], [LF]]))
     = [[(ascii ''id'', ascii ''1''), (ascii ''data'', ascii ''d1'' @ [0x0A])]]"
proof -
  let ?tls = "[(octets '':c'', [CR]), (octets ''id:1'', [CR]), (octets ''data:d1'', [CR, LF]),
               ([], [CR, LF])]"
  let ?cs = "[octets '':c'' @ [CR] @ octets ''id:1'' @ [CR] @ octets ''da'',
               octets ''ta:d1'' @ [CR], [LF, CR], [LF]]"
  have 1: "\<forall>x\<in>set ?tls. ended_ok x" by (simp add: ended_ok_def octets_def CR_def LF_def)
  have 2: "separate ?tls" by simp
  have 3: "concat ?cs = stream_of ?tls" by (simp add: stream_of_def octets_def)
  have 4: "safe_chunking ?cs"
    by (simp add: cuts_eval octets_def CR_def LF_def COLON_def SPACE_def)
  have 5: "lines_messages (map fst ?tls)
      = [[(ascii ''id'', ascii ''1''), (ascii ''data'', ascii ''d1'' @ [0x0A])]]"
    by (simp add: lines_eval run_eval)
  from line_endings_equivalent[OF 1 2 3 4] show ?thesis unfolding 5 by simp
qed


section \<open>The assignment of a field\<close>
















section \<open>Fields of a record\<close>




































end
